theory Spec2Isabelle
  imports Main "HOL-Library.Sublist" "HOL-Library.AList"
begin

section \<open>Text: characters, the regular expression's classes, str.replace\<close>

text \<open>
  A Python \<open>str\<close> is modelled as a \<open>string\<close>; a \<open>char\<close> stands for a code point below 256.
  A \<open>Path\<close> is the list of its parts, the last one being the file name.
\<close>

type_synonym path = "string list"

text \<open>The class \<open>[a-fA-F0-9]\<close> of the pattern at line 62.\<close>

definition is_hex :: "char \<Rightarrow> bool" where
  "is_hex c \<longleftrightarrow>
     (let n = (of_char c :: nat)
      in (97 \<le> n \<and> n \<le> 102) \<or> (65 \<le> n \<and> n \<le> 70) \<or> (48 \<le> n \<and> n \<le> 57))"

text \<open>
  The class \<open>\s\<close> of a \<open>str\<close> pattern: the characters Python counts as whitespace, which
  below 256 are tab to carriage return, the separators 0x1c to 0x1f, the space, 0x85 and 0xa0.
\<close>

definition is_space :: "char \<Rightarrow> bool" where
  "is_space c \<longleftrightarrow>
     (let n = (of_char c :: nat)
      in (9 \<le> n \<and> n \<le> 13) \<or> (28 \<le> n \<and> n \<le> 32) \<or> n = 133 \<or> n = 160)"

text \<open>\<open>str.lower\<close>, character by character: the letters A to Z and the Latin-1 capitals.\<close>

definition lower_char :: "char \<Rightarrow> char" where
  "lower_char c =
     (let n = (of_char c :: nat)
      in if (65 \<le> n \<and> n \<le> 90) \<or> (192 \<le> n \<and> n \<le> 222 \<and> n \<noteq> 215)
         then char_of (n + 32) else c)"

definition lower :: "string \<Rightarrow> string" where
  "lower s = map lower_char s"

text \<open>
  \<open>str.replace(old, new)\<close>: the text is scanned from the left, every occurrence of
  \<open>old\<close> found is replaced and the scan goes on behind it, so the occurrences replaced do
  not overlap. With an empty \<open>old\<close>, \<open>new\<close> is put before every character and at the end.
\<close>

fun str_replace :: "string \<Rightarrow> string \<Rightarrow> string \<Rightarrow> string" where
  "str_replace [] old new = (if old = [] then new else [])"
| "str_replace (c # cs) old new =
     (if old = [] then new @ c # str_replace cs old new
      else if prefix old (c # cs) then new @ str_replace (drop (length old - 1) cs) old new
      else c # str_replace cs old new)"

text \<open>
  \<open>re.search\<close> with the pattern \<open>guid:\s*([a-fA-F0-9]{32})\<close> of line 62. \<open>match_here\<close> tries the
  pattern at the start of the text and returns group 1: the literal, then the whitespace, then
  32 hexadecimal digits. The greedy \<open>\s*\<close> takes all the whitespace there is; giving some of
  it back never helps, a whitespace character being no hexadecimal digit. \<open>re_search\<close> tries
  the start positions from the left and returns the first match.
\<close>

definition match_here :: "string \<Rightarrow> string option" where
  "match_here s =
     (if prefix ''guid:'' s
      then (let rest = dropWhile is_space (drop 5 s); g = take 32 rest
            in if length g = 32 \<and> list_all is_hex g then Some g else None)
      else None)"

fun re_search :: "string \<Rightarrow> string option" where
  "re_search [] = match_here []"
| "re_search (c # cs) =
     (case match_here (c # cs) of Some g \<Rightarrow> Some g | None \<Rightarrow> re_search cs)"

text \<open>\<open>str.rfind\<close> of a character (-1 when absent), \<open>Path.name\<close> and \<open>Path.stem\<close>.\<close>

fun rfind :: "string \<Rightarrow> char \<Rightarrow> int" where
  "rfind [] c = - 1"
| "rfind (x # xs) c =
     (let i = rfind xs c in if 0 \<le> i then i + 1 else if x = c then 0 else - 1)"

definition path_name :: "path \<Rightarrow> string" where
  "path_name p = (if p = [] then [] else last p)"

definition stem :: "path \<Rightarrow> string" where
  "stem p =
     (let name = path_name p; i = rfind name CHR ''.''
      in if 0 < i \<and> i < int (length name) - 1 then take (nat i) name else name)"

section \<open>The file system and the log\<close>

text \<open>
  A file as the corrector sees it: \<open>contents\<close> is what \<open>read_text\<close> returns, \<open>None\<close> when it
  raises (no such file, a directory, no permission, undecodable bytes); \<open>writable\<close> tells
  whether \<open>write_text\<close> succeeds. \<open>Path.write_text\<close> opens the file in mode \<open>w\<close>, which
  empties it, and then writes: \<open>broken_write\<close> tells what a failing call leaves, \<open>None\<close> when
  the file could not be opened and is as it was, \<open>Some k\<close> when the failure came after the
  opening and the file holds the first \<open>k\<close> characters of the new text. \<open>writes\<close> counts the
  openings for writing that succeeded, standing for the modification time.
\<close>

record disk_file =
  contents :: "string option"
  writable :: bool
  broken_write :: "nat option"
  writes :: nat

text \<open>The entries the logger receives, one constructor per call of \<open>self.logger\<close>.\<close>

datatype log_entry =
    PathMissing string path          \<comment> \<open>error, line 46\<close>
  | NoMetaFiles string path          \<comment> \<open>error, line 50\<close>
  | MetaReadError path               \<comment> \<open>error, line 65\<close>
  | Mapped string string string      \<comment> \<open>info, line 108\<close>
  | ProcessingError path             \<comment> \<open>error, line 111\<close>
  | Updated path                     \<comment> \<open>info, line 128\<close>
  | UpdateError path                 \<comment> \<open>error, line 132\<close>
  | NoMappings                       \<comment> \<open>error, line 163\<close>

text \<open>
  The world of a run: \<open>path_exists\<close> and \<open>rglob\<close> are \<open>Path.exists\<close> and \<open>Path.rglob\<close> of
  the platform (the paths a recursive glob yields under a root for a pattern, in its
  traversal order). The globs with the constant patterns of lines 48, 74 and 147 and the
  tests of line 44 are taken to return. The search of lines 97 to 100 uses a pattern made
  from a file name, which the glob may refuse (a name with \<open>**\<close> in it, for one), and tests
  the paths it yields: \<open>search_raises\<close> tells for a root and a pattern whether that search
  raises. \<open>files\<close> holds every file, \<open>logged\<close> the log.
\<close>

datatype error = SearchError

record world =
  path_exists :: "path \<Rightarrow> bool"
  rglob :: "path \<Rightarrow> string \<Rightarrow> path list"
  search_raises :: "path \<Rightarrow> string \<Rightarrow> bool"
  files :: "path \<Rightarrow> disk_file"
  logged :: "log_entry list"

definition add_log :: "log_entry \<Rightarrow> world \<Rightarrow> world" where
  "add_log e w = w\<lparr>logged := logged w @ [e]\<rparr>"

definition read_text :: "world \<Rightarrow> path \<Rightarrow> string option" where
  "read_text w p = contents (files w p)"

text \<open>
  \<open>Path.write_text\<close>: the result tells whether the call returned (True) or raised (False),
  and gives the world it leaves. A call that raises after the opening leaves the file
  cut down to a part of the new text.
\<close>

definition put_text :: "world \<Rightarrow> path \<Rightarrow> string \<Rightarrow> world" where
  "put_text w p s =
     w\<lparr>files := (files w)
          (p := (files w p)\<lparr>contents := Some s, writes := Suc (writes (files w p))\<rparr>)\<rparr>"

definition write_text :: "world \<Rightarrow> path \<Rightarrow> string \<Rightarrow> bool \<times> world" where
  "write_text w p s =
     (if writable (files w p) then (True, put_text w p s)
      else (case broken_write (files w p) of
              None \<Rightarrow> (False, w)
            | Some k \<Rightarrow> (False, put_text w p (take k s))))"

section \<open>The corrector\<close>

text \<open>
  The object of class \<open>UnityGUIDCorrector\<close>. The dictionary \<open>guid_mappings\<close> keeps its
  keys in insertion order, which is the order \<open>items()\<close> yields: an association list with
  distinct keys, where assigning to a present key replaces the value in place.
\<close>

record corrector =
  decompiled_path :: path
  actual_path :: path
  project_path :: path
  guid_mappings :: "(string \<times> string) list"

definition init :: "path \<Rightarrow> path \<Rightarrow> path \<Rightarrow> corrector" where
  "init d a p = \<lparr>decompiled_path = d, actual_path = a, project_path = p, guid_mappings = []\<rparr>"

text \<open>The loop of lines 123 and 124 over the pairs of the table.\<close>

definition apply_mappings :: "(string \<times> string) list \<Rightarrow> string \<Rightarrow> string" where
  "apply_mappings m s = foldl (\<lambda>content (old_guid, new_guid). str_replace content old_guid new_guid) s m"

definition replace_guids_in_file :: "corrector \<Rightarrow> path \<Rightarrow> world \<Rightarrow> bool \<times> world" where
  "replace_guids_in_file self file_path w =
     (case read_text w file_path of
        None \<Rightarrow> (False, add_log (UpdateError file_path) w)
      | Some original_content \<Rightarrow>
          (let content = apply_mappings (guid_mappings self) original_content
           in if content \<noteq> original_content
              then (let r = write_text w file_path content
                    in if fst r then (True, add_log (Updated file_path) (snd r))
                       else (False, add_log (UpdateError file_path) (snd r)))
              else (False, w)))"

text \<open>Lines 58 to 66. Reading may raise, which is logged; a text without a match is not.\<close>

definition extract_guid_from_meta :: "path \<Rightarrow> world \<Rightarrow> string option \<times> world" where
  "extract_guid_from_meta meta_path w =
     (case read_text w meta_path of
        None \<Rightarrow> (None, add_log (MetaReadError meta_path) w)
      | Some content \<Rightarrow>
          (case re_search content of
             Some g \<Rightarrow> (Some (lower g), w)
           | None \<Rightarrow> (None, w)))"

text \<open>
  Lines 96 to 100: the first path the glob yields that exists, or the exception of the
  search (\<open>Inl\<close>).
\<close>

definition find_actual_meta :: "corrector \<Rightarrow> string \<Rightarrow> world \<Rightarrow> error + path option" where
  "find_actual_meta self filename w =
     (if search_raises w (actual_path self) (filename @ ''.meta'') then Inl SearchError
      else Inr (find (path_exists w) (rglob w (actual_path self) (filename @ ''.meta''))))"

text \<open>
  The body of the loop of lines 91 to 113 for one descriptor of the decompiled tree. An
  exception of the search is caught by the handler of line 110, which logs it; nothing else
  raises in the body (\<open>stem\<close> is pure, \<open>extract_guid_from_meta\<close> catches its own exceptions).
  Both identifiers are extracted before either is tested; the test of line 106 is Python's
  truth of an optional string.
\<close>

definition truthy :: "string option \<Rightarrow> bool" where
  "truthy x = (case x of None \<Rightarrow> False | Some s \<Rightarrow> s \<noteq> [])"

definition build_step :: "path \<Rightarrow> corrector \<times> world \<Rightarrow> corrector \<times> world" where
  "build_step decompiled_meta sw =
     (let self = fst sw; w = snd sw; filename = stem decompiled_meta
      in case find_actual_meta self filename w of
           Inl e \<Rightarrow> (self, add_log (ProcessingError decompiled_meta) w)
         | Inr None \<Rightarrow> (self, w)
         | Inr (Some actual_meta) \<Rightarrow>
             (let r1 = extract_guid_from_meta decompiled_meta w;
                  decompiled_guid = fst r1;
                  r2 = extract_guid_from_meta actual_meta (snd r1);
                  actual_guid = fst r2
              in if truthy decompiled_guid \<and> truthy actual_guid
                 then (self\<lparr>guid_mappings :=
                          AList.update (the decompiled_guid) (the actual_guid) (guid_mappings self)\<rparr>,
                       add_log (Mapped filename (the decompiled_guid) (the actual_guid)) (snd r2))
                 else (self, snd r2)))"

definition build_guid_mappings :: "corrector \<Rightarrow> world \<Rightarrow> corrector \<times> world" where
  "build_guid_mappings self w =
     foldl (\<lambda>sw decompiled_meta. build_step decompiled_meta sw) (self, w)
       (rglob w (decompiled_path self) ''*.meta'')"

text \<open>Lines 31 to 56: the three directories are checked in order, the first failure returns.\<close>

fun validate_loop :: "(path \<times> string) list \<Rightarrow> world \<Rightarrow> bool \<times> world" where
  "validate_loop [] w = (True, w)"
| "validate_loop ((p, description) # rest) w =
     (if \<not> path_exists w p then (False, add_log (PathMissing description p) w)
      else if rglob w p ''*.meta'' = [] then (False, add_log (NoMetaFiles description p) w)
      else validate_loop rest w)"

definition validate_paths :: "corrector \<Rightarrow> world \<Rightarrow> bool \<times> world" where
  "validate_paths self w =
     validate_loop
       [(decompiled_path self, ''Decompiled package path''),
        (actual_path self, ''Actual package path''),
        (project_path self, ''Unity project path'')] w"

text \<open>Lines 136 to 152.\<close>

definition extensions :: "string list" where
  "extensions = [''.meta'', ''.unity'', ''.asset'', ''.prefab'', ''.mat'']"

definition collect_target_files :: "corrector \<Rightarrow> world \<Rightarrow> path list" where
  "collect_target_files self w =
     concat (map (\<lambda>ext. rglob w (project_path self) (''*'' @ ext)) extensions)"

text \<open>The loop of lines 175 to 179, with the two counters and the world as its state.\<close>

fun correct_loop :: "corrector \<Rightarrow> path list \<Rightarrow> int \<times> int \<times> world \<Rightarrow> int \<times> int \<times> world" where
  "correct_loop self [] acc = acc"
| "correct_loop self (file_path # rest) (files_processed, files_modified, w) =
     (let r = replace_guids_in_file self file_path w
      in correct_loop self rest
           (files_processed + 1, (if fst r then files_modified + 1 else files_modified), snd r))"

text \<open>Lines 154 to 185. The result is the pair returned, the object and the world.\<close>

definition correct_guids :: "corrector \<Rightarrow> world \<Rightarrow> (int \<times> int) \<times> corrector \<times> world" where
  "correct_guids self w =
     (let v = validate_paths self w
      in if \<not> fst v then ((0, 0), self, snd v)
         else (let b = build_guid_mappings self (snd v); self' = fst b
               in if guid_mappings self' = []
                  then ((0, 0), self', add_log NoMappings (snd b))
                  else (let target_files = collect_target_files self' (snd b);
                            r = correct_loop self' target_files (0, 0, snd b)
                        in ((fst r, fst (snd r)), self', snd (snd r)))))"

section \<open>What the pattern means\<close>

text \<open>
  The meaning of the pattern of line 62, stated apart from the scanner above:
  \<open>matches_at s i n g\<close> says that the pattern matches the text \<open>s\<close> from position \<open>i\<close> with
  \<open>n\<close> characters taken by \<open>\s*\<close> and group 1 equal to \<open>g\<close>: the literal \<open>guid:\<close>, then \<open>n\<close>
  whitespace characters, then the 32 hexadecimal digits \<open>g\<close>. \<open>has_match_at s i\<close> says that
  the pattern matches from position \<open>i\<close> in some way.
\<close>

definition matches_at :: "string \<Rightarrow> nat \<Rightarrow> nat \<Rightarrow> string \<Rightarrow> bool" where
  "matches_at s i n g \<longleftrightarrow>
     prefix ''guid:'' (drop i s)
     \<and> list_all is_space (take n (drop (i + 5) s))
     \<and> g = take 32 (drop (i + 5 + n) s)
     \<and> length g = 32 \<and> list_all is_hex g"

definition has_match_at :: "string \<Rightarrow> nat \<Rightarrow> bool" where
  "has_match_at s i \<longleftrightarrow>
     list_ex (\<lambda>n. matches_at s i n (take 32 (drop (i + 5 + n) s))) [0..<Suc (length s)]"

text \<open>The digits and the letters a to f: what an extracted identifier is made of.\<close>

definition is_lower_hex :: "char \<Rightarrow> bool" where
  "is_lower_hex c \<longleftrightarrow>
     (let n = (of_char c :: nat) in (97 \<le> n \<and> n \<le> 102) \<or> (48 \<le> n \<and> n \<le> 57))"

text \<open>
  What the body of the loop records for one descriptor \<open>d\<close> of the decompiled tree: the pair
  of the identifier of \<open>d\<close> and the identifier of the first existing path that the glob for
  the stem of \<open>d\<close> yields under the package tree, when both are extracted.
\<close>

definition correlate :: "corrector \<Rightarrow> world \<Rightarrow> path \<Rightarrow> (string \<times> string) option" where
  "correlate self w d =
     (case find_actual_meta self (stem d) w of
        Inl e \<Rightarrow> None
      | Inr None \<Rightarrow> None
      | Inr (Some a) \<Rightarrow>
          (let dg = fst (extract_guid_from_meta d w); ag = fst (extract_guid_from_meta a w)
           in if truthy dg \<and> truthy ag then Some (the dg, the ag) else None))"

text \<open>
  What the body of the loop logs for one descriptor \<open>d\<close>: the exception of the search; or one
  error for each of the two descriptors that cannot be read, then the correlation when
  there is one; or nothing.
\<close>

definition step_log :: "corrector \<Rightarrow> world \<Rightarrow> path \<Rightarrow> log_entry list" where
  "step_log self w d =
     (case find_actual_meta self (stem d) w of
        Inl e \<Rightarrow> [ProcessingError d]
      | Inr None \<Rightarrow> []
      | Inr (Some a) \<Rightarrow>
          map MetaReadError (filter (\<lambda>x. read_text w x = None) [d, a])
          @ (case correlate self w d of
               None \<Rightarrow> []
             | Some (old, new) \<Rightarrow> [Mapped (stem d) old new]))"

text \<open>
  The assignment of line 107, when there is a pair.
\<close>

definition record_pair :: "(string \<times> string) option \<Rightarrow> (string \<times> string) list \<Rightarrow> (string \<times> string) list" where
  "record_pair r m = (case r of None \<Rightarrow> m | Some (old, new) \<Rightarrow> AList.update old new m)"

text \<open>
  An identifier as it is extracted: 32 characters among the digits and a to f.
\<close>

definition is_guid :: "string \<Rightarrow> bool" where
  "is_guid g \<longleftrightarrow> length g = 32 \<and> list_all is_lower_hex g"

text \<open>
  A text is delimited when at no position 33 hexadecimal digits start: every run of
  hexadecimal digits has at most the length of an identifier, so an identifier in the text
  has no hexadecimal digit before or after it.
\<close>

definition long_hex_run :: "string \<Rightarrow> bool" where
  "long_hex_run s \<longleftrightarrow> 33 \<le> length s \<and> list_all is_hex (take 33 s)"

fun delimited :: "string \<Rightarrow> bool" where
  "delimited [] = True"
| "delimited (c # cs) = (\<not> long_hex_run (c # cs) \<and> delimited cs)"

text \<open>
  What the pairs of the table, applied in order, make of one word.
\<close>

definition chain :: "(string \<times> string) list \<Rightarrow> string \<Rightarrow> string" where
  "chain m h = foldl (\<lambda>h (old, new). if h = old then new else h) h m"

text \<open>
  A target is settled when running \<open>replace_guids_in_file\<close> on it changes no file: it cannot be
  read, or the table leaves its content as it is, or it cannot be opened for writing. It is
  stable when the table leaves as it is every beginning of what it makes of the content.
\<close>

definition settled :: "corrector \<Rightarrow> world \<Rightarrow> path \<Rightarrow> bool" where
  "settled self w p \<longleftrightarrow>
     (case read_text w p of
        None \<Rightarrow> True
      | Some s \<Rightarrow> apply_mappings (guid_mappings self) s = s
                  \<or> (\<not> writable (files w p) \<and> broken_write (files w p) = None))"

definition stable :: "corrector \<Rightarrow> world \<Rightarrow> path \<Rightarrow> bool" where
  "stable self w p \<longleftrightarrow>
     (case read_text w p of
        None \<Rightarrow> True
      | Some s \<Rightarrow> list_all (\<lambda>t. apply_mappings (guid_mappings self) t = t)
                    (prefixes (apply_mappings (guid_mappings self) s)))"

text \<open>
  The part of a text that no replacement of one identifier by another can touch: every
  character but the digits and the letters a to f, at its position.
\<close>

definition fixed_part :: "string \<Rightarrow> char option list" where
  "fixed_part s = map (\<lambda>c. if is_lower_hex c then None else Some c) s"

section \<open>Example worlds\<close>

text \<open>
  A world is built from the directories that exist, the files with their state, and what
  the recursive glob yields for a root and a pattern; every other file is absent, every
  other glob yields nothing, and the search raises for the patterns with \<open>**\<close> in them.
\<close>

definition mk_file :: "string \<Rightarrow> disk_file" where
  "mk_file s = \<lparr>contents = Some s, writable = True, broken_write = None, writes = 0\<rparr>"

definition brittle_file :: "string \<Rightarrow> nat \<Rightarrow> disk_file" where
  "brittle_file s k = \<lparr>contents = Some s, writable = False, broken_write = Some k, writes = 0\<rparr>"

definition no_file :: disk_file where
  "no_file = \<lparr>contents = None, writable = False, broken_write = None, writes = 0\<rparr>"

definition mk_world ::
  "path list \<Rightarrow> (path \<times> disk_file) list \<Rightarrow> ((path \<times> string) \<times> path list) list \<Rightarrow> world" where
  "mk_world dirs fl gl =
     \<lparr>path_exists = (\<lambda>p. p \<in> set dirs \<or> p \<in> fst ` set fl),
      rglob = (\<lambda>root pat. case map_of gl (root, pat) of Some ps \<Rightarrow> ps | None \<Rightarrow> []),
      search_raises = (\<lambda>root pat. sublist ''**'' pat),
      files = (\<lambda>p. case map_of fl p of Some f \<Rightarrow> f | None \<Rightarrow> no_file),
      logged = []\<rparr>"

definition guid_a :: string where "guid_a = ''aaaaaaaaaaaaaaaaaaaaaaaaaaaaaaaa''"
definition guid_A :: string where "guid_A = ''AAAAAAAAAAAAAAAAAAAAAAAAAAAAAAAA''"
definition guid_b :: string where "guid_b = ''bbbbbbbbbbbbbbbbbbbbbbbbbbbbbbbb''"
definition guid_c :: string where "guid_c = ''cccccccccccccccccccccccccccccccc''"

text \<open>
  The scenario of the specification: \<open>Foo.meta\<close> in the decompiled tree with the identifier
  in capitals, \<open>Foo.meta\<close> in the package tree, a scene in the project that refers to the
  decompiled identifier.
\<close>

definition scenario :: world where
  "scenario = mk_world [[''dec''], [''act''], [''proj'']]
     [([''dec'', ''Foo.meta''], mk_file (''fileFormatVersion: 2\<newline>guid: '' @ guid_A @ ''\<newline>'')),
      ([''act'', ''Foo.meta''], mk_file (''guid: '' @ guid_b)),
      ([''proj'', ''Scene.unity''],
         mk_file (''m_Script: {fileID: 11500000, guid: '' @ guid_a @ '', type: 3}'')),
      ([''proj'', ''Scene.unity.meta''], mk_file (''guid: '' @ guid_c))]
     [(([''dec''], ''*.meta''), [[''dec'', ''Foo.meta'']]),
      (([''act''], ''*.meta''), [[''act'', ''Foo.meta'']]),
      (([''act''], ''Foo.meta''), [[''act'', ''Foo.meta'']]),
      (([''proj''], ''*.meta''), [[''proj'', ''Scene.unity.meta'']]),
      (([''proj''], ''*.unity''), [[''proj'', ''Scene.unity'']])]"

definition scenario_self :: corrector where
  "scenario_self = init [''dec''] [''act''] [''proj'']"

text \<open>The corrector of the scenario once its table is built.\<close>

definition built_self :: corrector where
  "built_self = scenario_self\<lparr>guid_mappings := [(guid_a, guid_b)]\<rparr>"

text \<open>The scenario with no descriptor of the package tree under the name \<open>Foo\<close>.\<close>

definition unrelated :: world where
  "unrelated = mk_world [[''dec''], [''act''], [''proj'']]
     [([''dec'', ''Foo.meta''], mk_file (''guid: '' @ guid_a)),
      ([''act'', ''Bar.meta''], mk_file (''guid: '' @ guid_b)),
      ([''proj'', ''Scene.unity''], mk_file (''m_Script: {guid: '' @ guid_a @ ''}'')),
      ([''proj'', ''Scene.unity.meta''], mk_file (''guid: '' @ guid_c))]
     [(([''dec''], ''*.meta''), [[''dec'', ''Foo.meta'']]),
      (([''act''], ''*.meta''), [[''act'', ''Bar.meta'']]),
      (([''act''], ''Bar.meta''), [[''act'', ''Bar.meta'']]),
      (([''proj''], ''*.meta''), [[''proj'', ''Scene.unity.meta'']]),
      (([''proj''], ''*.unity''), [[''proj'', ''Scene.unity'']])]"

text \<open>
  A project whose scene cannot be written, the write failing after the opening with ten
  characters written, and whose asset cannot be read.
\<close>

definition guarded :: world where
  "guarded = mk_world [[''proj'']]
     [([''proj'', ''Scene.unity''], brittle_file (''m_Script: {guid: '' @ guid_a @ ''}'') 10),
      ([''proj'', ''Other.unity''], mk_file (''m_Script: {guid: '' @ guid_a @ ''}''))]
     [(([''proj''], ''*.unity''), [[''proj'', ''Scene.unity''], [''proj'', ''Other.unity'']]),
      (([''proj''], ''*.asset''), [[''proj'', ''Broken.asset'']])]"

text \<open>
  A descriptor with the literal \<open>guid:\<close> three times: not followed by an identifier, followed
  by one in mixed case, followed by another one; and a descriptor without identifier.
\<close>

definition two_guids :: string where
  "two_guids = ''name: guid: none\<newline>guid:  0123456789ABCDEFabcdef0123456789\<newline>guid: '' @ guid_b"

definition descriptors :: world where
  "descriptors = mk_world []
     [([''Two.meta''], mk_file two_guids),
      ([''Plain.meta''], mk_file ''fileFormatVersion: 2'')] []"

text \<open>
  Two descriptors named \<open>Foo.meta\<close> in the package tree.
\<close>

definition ambiguous :: world where
  "ambiguous = mk_world [[''dec''], [''act''], [''proj'']]
     [([''dec'', ''Foo.meta''], mk_file (''guid: '' @ guid_a)),
      ([''act'', ''x'', ''Foo.meta''], mk_file (''guid: '' @ guid_b)),
      ([''act'', ''y'', ''Foo.meta''], mk_file (''guid: '' @ guid_c))]
     [(([''dec''], ''*.meta''), [[''dec'', ''Foo.meta'']]),
      (([''act''], ''*.meta''), [[''act'', ''x'', ''Foo.meta''], [''act'', ''y'', ''Foo.meta'']]),
      (([''act''], ''Foo.meta''), [[''act'', ''x'', ''Foo.meta''], [''act'', ''y'', ''Foo.meta'']])]"

text \<open>
  Two descriptors of the decompiled tree with the same identifier, one of them in capitals.
\<close>

definition clash :: world where
  "clash = mk_world [[''dec''], [''act''], [''proj'']]
     [([''dec'', ''one'', ''Foo.meta''], mk_file (''guid: '' @ guid_A)),
      ([''dec'', ''two'', ''Bar.meta''], mk_file (''guid: '' @ guid_a)),
      ([''act'', ''Foo.meta''], mk_file (''guid: '' @ guid_b)),
      ([''act'', ''Bar.meta''], mk_file (''guid: '' @ guid_c))]
     [(([''dec''], ''*.meta''), [[''dec'', ''one'', ''Foo.meta''], [''dec'', ''two'', ''Bar.meta'']]),
      (([''act''], ''*.meta''), [[''act'', ''Foo.meta''], [''act'', ''Bar.meta'']]),
      (([''act''], ''Foo.meta''), [[''act'', ''Foo.meta'']]),
      (([''act''], ''Bar.meta''), [[''act'', ''Bar.meta'']])]"

text \<open>
  A descriptor of the decompiled tree without identifier, beside one with an identifier.
\<close>

definition headless :: world where
  "headless = mk_world [[''dec''], [''act''], [''proj'']]
     [([''dec'', ''Foo.meta''], mk_file ''fileFormatVersion: 2''),
      ([''dec'', ''Bar.meta''], mk_file (''guid: '' @ guid_a)),
      ([''act'', ''Foo.meta''], mk_file (''guid: '' @ guid_b)),
      ([''act'', ''Bar.meta''], mk_file (''guid: '' @ guid_c))]
     [(([''dec''], ''*.meta''), [[''dec'', ''Foo.meta''], [''dec'', ''Bar.meta'']]),
      (([''act''], ''*.meta''), [[''act'', ''Foo.meta''], [''act'', ''Bar.meta'']]),
      (([''act''], ''Foo.meta''), [[''act'', ''Foo.meta'']]),
      (([''act''], ''Bar.meta''), [[''act'', ''Bar.meta'']])]"

text \<open>
  Three descriptors of the decompiled tree: one whose name makes the search raise, one that
  the glob yields and that cannot be read, one with an identifier.
\<close>

definition troubled :: world where
  "troubled = mk_world [[''dec''], [''act''], [''proj'']]
     [([''dec'', ''**.meta''], mk_file (''guid: '' @ guid_b)),
      ([''dec'', ''Bar.meta''], mk_file (''guid: '' @ guid_a)),
      ([''act'', ''Foo.meta''], mk_file (''guid: '' @ guid_b)),
      ([''act'', ''Bar.meta''], mk_file (''guid: '' @ guid_c))]
     [(([''dec''], ''*.meta''),
         [[''dec'', ''**.meta''], [''dec'', ''Foo.meta''], [''dec'', ''Bar.meta'']]),
      (([''act''], ''*.meta''), [[''act'', ''Foo.meta''], [''act'', ''Bar.meta'']]),
      (([''act''], ''Foo.meta''), [[''act'', ''Foo.meta'']]),
      (([''act''], ''Bar.meta''), [[''act'', ''Bar.meta'']])]"

text \<open>
  The scenario with two assets: in one a spelling of the old identifier with a capital
  stands one character before the old identifier itself, in the other the old identifier
  stands in capitals and, apart from it, in lower case.
\<close>

definition guid_Aa :: string where "guid_Aa = ''Aaaaaaaaaaaaaaaaaaaaaaaaaaaaaaaa''"

definition overlapped :: world where
  "overlapped = mk_world [[''dec''], [''act''], [''proj'']]
     [([''dec'', ''Foo.meta''], mk_file (''guid: '' @ guid_A)),
      ([''act'', ''Foo.meta''], mk_file (''guid: '' @ guid_b)),
      ([''proj'', ''Notes.asset''], mk_file (''x: A'' @ guid_a)),
      ([''proj'', ''List.asset''], mk_file (''old: '' @ guid_A @ '' new: '' @ guid_a))]
     [(([''dec''], ''*.meta''), [[''dec'', ''Foo.meta'']]),
      (([''act''], ''*.meta''), [[''act'', ''Foo.meta'']]),
      (([''act''], ''Foo.meta''), [[''act'', ''Foo.meta'']]),
      (([''proj''], ''*.asset''), [[''proj'', ''Notes.asset''], [''proj'', ''List.asset'']])]"

text \<open>
  Two identifiers that overlap with each other when shifted by one character.
\<close>

definition guid_ab :: string where "guid_ab = ''abababababababababababababababab''"

definition guid_ba :: string where "guid_ba = ''babababababababababababababababa''"

text \<open>
  Two correlations where the new identifier of the second is the old identifier of the
  first, which is recorded first.
\<close>

definition chained :: world where
  "chained = mk_world [[''dec''], [''act''], [''proj'']]
     [([''dec'', ''X.meta''], mk_file (''guid: '' @ guid_b)),
      ([''dec'', ''Y.meta''], mk_file (''guid: '' @ guid_a)),
      ([''act'', ''X.meta''], mk_file (''guid: '' @ guid_c)),
      ([''act'', ''Y.meta''], mk_file (''guid: '' @ guid_b)),
      ([''proj'', ''Scene.unity''], mk_file (''m_Script: {guid: '' @ guid_a @ ''}''))]
     [(([''dec''], ''*.meta''), [[''dec'', ''X.meta''], [''dec'', ''Y.meta'']]),
      (([''act''], ''*.meta''), [[''act'', ''X.meta''], [''act'', ''Y.meta'']]),
      (([''act''], ''X.meta''), [[''act'', ''X.meta'']]),
      (([''act''], ''Y.meta''), [[''act'', ''Y.meta'']]),
      (([''proj''], ''*.unity''), [[''proj'', ''Scene.unity'']])]"

text \<open>
  An asset with 33 hexadecimal digits in a row, the last 32 being an old identifier.
\<close>

definition packed :: world where
  "packed = mk_world [[''dec''], [''act''], [''proj'']]
     [([''dec'', ''P.meta''], mk_file (''guid: '' @ guid_ab)),
      ([''act'', ''P.meta''], mk_file (''guid: '' @ guid_ba)),
      ([''proj'', ''Data.asset''], mk_file (''data: a'' @ guid_ab))]
     [(([''dec''], ''*.meta''), [[''dec'', ''P.meta'']]),
      (([''act''], ''*.meta''), [[''act'', ''P.meta'']]),
      (([''act''], ''P.meta''), [[''act'', ''P.meta'']]),
      (([''proj''], ''*.asset''), [[''proj'', ''Data.asset'']])]"

section \<open>Facts about str.replace\<close>

lemma str_replace_absent:
  "\<not> sublist old s \<Longrightarrow> str_replace s old new = s"
proof (induction s)
  case Nil
  then show ?case by auto
next
  case (Cons c cs)
  from Cons.prems have ne: "old \<noteq> []" by auto
  from Cons.prems have np: "\<not> prefix old (c # cs)" and ns: "\<not> sublist old cs"
    by (auto simp: sublist_Cons_right)
  from Cons.IH [OF ns] ne np show ?case by simp
qed

lemma apply_mappings_absent:
  "\<forall>old \<in> fst ` set m. \<not> sublist old s \<Longrightarrow> apply_mappings m s = s"
  unfolding apply_mappings_def
  by (induction m) (auto simp: str_replace_absent)

section \<open>The log and the files\<close>

lemma files_add_log [simp]: "files (add_log e w) = files w"
  and rglob_add_log [simp]: "rglob (add_log e w) = rglob w"
  and path_exists_add_log [simp]: "path_exists (add_log e w) = path_exists w"
  and search_raises_add_log [simp]: "search_raises (add_log e w) = search_raises w"
  and logged_add_log [simp]: "logged (add_log e w) = logged w @ [e]"
  by (simp_all add: add_log_def)

lemma read_text_add_log [simp]: "read_text (add_log e w) p = read_text w p"
  by (simp add: read_text_def)

lemma extract_static:
  "files (snd (extract_guid_from_meta p w)) = files w \<and>
   rglob (snd (extract_guid_from_meta p w)) = rglob w \<and>
   path_exists (snd (extract_guid_from_meta p w)) = path_exists w \<and>
   search_raises (snd (extract_guid_from_meta p w)) = search_raises w"
  by (simp add: extract_guid_from_meta_def split: option.splits)

lemma build_step_static:
  "files (snd (build_step d sw)) = files (snd sw) \<and>
   rglob (snd (build_step d sw)) = rglob (snd sw) \<and>
   path_exists (snd (build_step d sw)) = path_exists (snd sw) \<and>
   search_raises (snd (build_step d sw)) = search_raises (snd sw)"
  by (simp add: build_step_def Let_def extract_static split: option.splits sum.splits)

lemma build_fold_static:
  "files (snd (foldl (\<lambda>sw d. build_step d sw) sw ds)) = files (snd sw) \<and>
   rglob (snd (foldl (\<lambda>sw d. build_step d sw) sw ds)) = rglob (snd sw) \<and>
   path_exists (snd (foldl (\<lambda>sw d. build_step d sw) sw ds)) = path_exists (snd sw) \<and>
   search_raises (snd (foldl (\<lambda>sw d. build_step d sw) sw ds)) = search_raises (snd sw)"
  by (induction ds arbitrary: sw) (simp_all add: build_step_static)

lemma build_static:
  "files (snd (build_guid_mappings self w)) = files w \<and>
   rglob (snd (build_guid_mappings self w)) = rglob w \<and>
   path_exists (snd (build_guid_mappings self w)) = path_exists w \<and>
   search_raises (snd (build_guid_mappings self w)) = search_raises w"
  using build_fold_static [of "(self, w)"] by (simp add: build_guid_mappings_def)

lemma validate_loop_static:
  "files (snd (validate_loop ps w)) = files w \<and>
   rglob (snd (validate_loop ps w)) = rglob w \<and>
   path_exists (snd (validate_loop ps w)) = path_exists w \<and>
   search_raises (snd (validate_loop ps w)) = search_raises w"
  by (induction ps w rule: validate_loop.induct) simp_all

lemma validate_static:
  "files (snd (validate_paths self w)) = files w \<and>
   rglob (snd (validate_paths self w)) = rglob w \<and>
   path_exists (snd (validate_paths self w)) = path_exists w \<and>
   search_raises (snd (validate_paths self w)) = search_raises w"
  by (simp add: validate_paths_def validate_loop_static)

lemma validate_loop_fails:
  "\<exists>p \<in> fst ` set ps. \<not> path_exists w p \<or> rglob w p ''*.meta'' = [] \<Longrightarrow>
   \<not> fst (validate_loop ps w)"
  by (induction ps w rule: validate_loop.induct) auto

section \<open>Files without any old identifier\<close>

lemma replace_guids_absent:
  assumes "read_text w p = Some s"
    and "\<forall>old \<in> fst ` set (guid_mappings self). \<not> sublist old s"
  shows "replace_guids_in_file self p w = (False, w)"
  using assms by (simp add: replace_guids_in_file_def apply_mappings_absent)

text \<open>
  Claim C6. A target file that can be read and whose content holds no occurrence of any key
  of the table: \<open>replace_guids_in_file\<close> returns False and the world it returns is the world
  it was given, so nothing was written (every file has the content and the count of writes
  it had) and nothing was logged.
\<close>

theorem unmodified_when_absent:
  assumes "read_text w p = Some s"
    and "\<forall>old \<in> fst ` set (guid_mappings self). \<not> sublist old s"
  shows "replace_guids_in_file self p w = (False, w)"
  using assms by (rule replace_guids_absent)

theorem unmodified_when_absent_witness:
  "read_text scenario [''proj'', ''Scene.unity.meta''] = Some (''guid: '' @ guid_c)
   \<and> fst ` set (guid_mappings built_self) = {guid_a}
   \<and> \<not> sublist guid_a (''guid: '' @ guid_c)
   \<and> replace_guids_in_file built_self [''proj'', ''Scene.unity.meta''] scenario
       = (False, scenario)"
proof -
  have r: "read_text scenario [''proj'', ''Scene.unity.meta''] = Some (''guid: '' @ guid_c)"
    by code_simp
  have k: "fst ` set (guid_mappings built_self) = {guid_a}"
    by (simp add: built_self_def)
  have n: "\<not> sublist guid_a (''guid: '' @ guid_c)"
    by code_simp
  from k n have a: "\<forall>old \<in> fst ` set (guid_mappings built_self). \<not> sublist old (''guid: '' @ guid_c)"
    by simp
  from unmodified_when_absent [OF r a] r k n show ?thesis by simp
qed

section \<open>Early exits of the run\<close>

text \<open>
  Claim C5. If one of the three directories does not exist or has no descriptor under it, or
  if the table is empty after the build phase, \<open>correct_guids\<close> returns (0, 0); every file
  has the content and the count of writes it had; and the world returned is the one the
  validation left, or the one the build phase left with the entry "no mappings" added to
  the log: the collection of targets and the substitution loop did not run.
\<close>

theorem halt_without_mutation:
  assumes "(\<exists>p \<in> {decompiled_path self, actual_path self, project_path self}.
              \<not> path_exists w p \<or> rglob w p ''*.meta'' = [])
           \<or> guid_mappings (fst (build_guid_mappings self (snd (validate_paths self w)))) = []"
  shows "fst (correct_guids self w) = (0, 0)
       \<and> files (snd (snd (correct_guids self w))) = files w
       \<and> (snd (snd (correct_guids self w)) = snd (validate_paths self w)
          \<or> snd (snd (correct_guids self w)) =
              add_log NoMappings (snd (build_guid_mappings self (snd (validate_paths self w)))))"
proof (cases "fst (validate_paths self w)")
  case False
  then show ?thesis
    by (simp add: correct_guids_def Let_def validate_static)
next
  case True
  have "\<not> (\<exists>p \<in> {decompiled_path self, actual_path self, project_path self}.
              \<not> path_exists w p \<or> rglob w p ''*.meta'' = [])"
  proof
    assume "\<exists>p \<in> {decompiled_path self, actual_path self, project_path self}.
              \<not> path_exists w p \<or> rglob w p ''*.meta'' = []"
    then have "\<not> fst (validate_paths self w)"
      unfolding validate_paths_def by (intro validate_loop_fails) simp
    with True show False by simp
  qed
  with assms have "guid_mappings (fst (build_guid_mappings self (snd (validate_paths self w)))) = []"
    by blast
  with True show ?thesis
    by (simp add: correct_guids_def Let_def validate_static build_static)
qed

theorem halt_without_mutation_witness:
  "guid_mappings (fst (build_guid_mappings scenario_self
      (snd (validate_paths scenario_self unrelated)))) = []
   \<and> fst (validate_paths scenario_self unrelated)
   \<and> fst (correct_guids scenario_self unrelated) = (0, 0)
   \<and> files (snd (snd (correct_guids scenario_self unrelated))) = files unrelated"
proof -
  have e: "guid_mappings (fst (build_guid_mappings scenario_self
      (snd (validate_paths scenario_self unrelated)))) = []"
    by code_simp
  have v: "fst (validate_paths scenario_self unrelated)"
    by code_simp
  from halt_without_mutation [of scenario_self unrelated] e v show ?thesis by blast
qed

section \<open>Failures of reading and writing during the substitution\<close>

lemma correct_loop_append:
  "correct_loop self (xs @ ys) acc = correct_loop self ys (correct_loop self xs acc)"
  by (induction self xs acc rule: correct_loop.induct) (simp_all add: Let_def)

lemma correct_loop_processed:
  "fst (correct_loop self ts (n, m, w)) = n + int (length ts)"
  by (induction ts arbitrary: n m w) (simp_all add: Let_def)

lemma put_text_simps [simp]:
  "read_text (put_text w p s) p = Some s"
  "q \<noteq> p \<Longrightarrow> files (put_text w p s) q = files w q"
  "writable (files (put_text w p s) q) = writable (files w q)"
  "broken_write (files (put_text w p s) q) = broken_write (files w q)"
  "logged (put_text w p s) = logged w"
  "writes (files (put_text w p s) p) = Suc (writes (files w p))"
  by (simp_all add: put_text_def read_text_def)

lemma replace_unchanged:
  "read_text w p = Some s \<Longrightarrow> apply_mappings (guid_mappings self) s = s \<Longrightarrow>
   replace_guids_in_file self p w = (False, w)"
  by (simp add: replace_guids_in_file_def)

lemma replace_written:
  "read_text w p = Some s \<Longrightarrow> apply_mappings (guid_mappings self) s \<noteq> s \<Longrightarrow>
   writable (files w p) \<Longrightarrow>
   replace_guids_in_file self p w
     = (True, add_log (Updated p) (put_text w p (apply_mappings (guid_mappings self) s)))"
  by (simp add: replace_guids_in_file_def write_text_def Let_def)

lemma replace_unread:
  "read_text w p = None \<Longrightarrow>
   replace_guids_in_file self p w = (False, add_log (UpdateError p) w)"
  by (simp add: replace_guids_in_file_def)

lemma replace_unopened:
  "read_text w p = Some s \<Longrightarrow> apply_mappings (guid_mappings self) s \<noteq> s \<Longrightarrow>
   \<not> writable (files w p) \<Longrightarrow> broken_write (files w p) = None \<Longrightarrow>
   replace_guids_in_file self p w = (False, add_log (UpdateError p) w)"
  by (simp add: replace_guids_in_file_def write_text_def Let_def)

lemma replace_cut:
  "read_text w p = Some s \<Longrightarrow> apply_mappings (guid_mappings self) s \<noteq> s \<Longrightarrow>
   \<not> writable (files w p) \<Longrightarrow> broken_write (files w p) = Some k \<Longrightarrow>
   replace_guids_in_file self p w
     = (False, add_log (UpdateError p)
                 (put_text w p (take k (apply_mappings (guid_mappings self) s))))"
  by (simp add: replace_guids_in_file_def write_text_def Let_def)

lemma replace_fails:
  assumes "read_text w p = None
          \<or> (\<exists>s. read_text w p = Some s \<and> apply_mappings (guid_mappings self) s \<noteq> s
               \<and> \<not> writable (files w p))"
  shows "\<not> fst (replace_guids_in_file self p w)"
    and "logged (snd (replace_guids_in_file self p w)) = logged w @ [UpdateError p]"
proof -
  have "\<not> fst (replace_guids_in_file self p w)
      \<and> logged (snd (replace_guids_in_file self p w)) = logged w @ [UpdateError p]"
  proof (cases "read_text w p")
    case None
    then show ?thesis by (simp add: replace_unread)
  next
    case (Some s)
    with assms have c: "apply_mappings (guid_mappings self) s \<noteq> s" and n: "\<not> writable (files w p)"
      by auto
    show ?thesis
    proof (cases "broken_write (files w p)")
      case None
      from replace_unopened [OF Some c n None] show ?thesis by simp
    next
      case (Some k)
      from replace_cut [OF \<open>read_text w p = Some s\<close> c n Some] show ?thesis by simp
    qed
  qed
  then show "\<not> fst (replace_guids_in_file self p w)"
    and "logged (snd (replace_guids_in_file self p w)) = logged w @ [UpdateError p]"
    by simp_all
qed

lemma replace_elsewhere:
  "q \<noteq> p \<Longrightarrow> files (snd (replace_guids_in_file self p w)) q = files w q"
  by (simp add: replace_guids_in_file_def write_text_def Let_def split: option.splits)

text \<open>
  Claim C8. When the loop reaches a target that cannot be read, or whose new content cannot
  be written, \<open>replace_guids_in_file\<close> returns False and logs the error. Every other file is
  as it was. The target itself is as it was when it could not be read or opened; when the
  write failed after the opening, it holds the part of the new content that was written.
  The loop counts the target as processed, not as modified, and goes on with the remaining
  targets from the world this call left, all of which are counted.
\<close>

theorem io_failure_is_local:
  assumes "correct_loop self before acc = (n, m, w)"
    and "read_text w p = None
          \<or> (\<exists>s. read_text w p = Some s \<and> apply_mappings (guid_mappings self) s \<noteq> s
               \<and> \<not> writable (files w p))"
  shows "\<not> fst (replace_guids_in_file self p w)
       \<and> logged (snd (replace_guids_in_file self p w)) = logged w @ [UpdateError p]
       \<and> (\<forall>q. q \<noteq> p \<longrightarrow> files (snd (replace_guids_in_file self p w)) q = files w q)
       \<and> (read_text w p = None \<or> broken_write (files w p) = None
            \<longrightarrow> files (snd (replace_guids_in_file self p w)) = files w)
       \<and> (\<forall>s k. read_text w p = Some s \<and> broken_write (files w p) = Some k
            \<longrightarrow> read_text (snd (replace_guids_in_file self p w)) p
                  = Some (take k (apply_mappings (guid_mappings self) s)))
       \<and> correct_loop self (before @ p # after) acc =
           correct_loop self after (n + 1, m, snd (replace_guids_in_file self p w))
       \<and> fst (correct_loop self (before @ p # after) acc) = n + 1 + int (length after)"
proof -
  let ?r = "replace_guids_in_file self p w"
  note f = replace_fails [OF assms(2)]
  have same: "files (snd ?r) = files w"
    if "read_text w p = None \<or> broken_write (files w p) = None"
  proof (cases "read_text w p")
    case None
    then show ?thesis by (simp add: replace_unread)
  next
    case (Some s)
    with assms(2) that have "apply_mappings (guid_mappings self) s \<noteq> s"
      "\<not> writable (files w p)" "broken_write (files w p) = None" by auto
    from replace_unopened [OF Some this] show ?thesis by simp
  qed
  have cut: "read_text (snd ?r) p = Some (take k (apply_mappings (guid_mappings self) s))"
    if "read_text w p = Some s \<and> broken_write (files w p) = Some k" for s k
  proof -
    from that assms(2) have "read_text w p = Some s"
      "apply_mappings (guid_mappings self) s \<noteq> s"
      "\<not> writable (files w p)" "broken_write (files w p) = Some k" by auto
    from replace_cut [OF this] show ?thesis by (simp add: read_text_def put_text_def)
  qed
  have loop: "correct_loop self (before @ p # after) acc
                = correct_loop self after (n + 1, m, snd ?r)"
    using assms(1) f(1) by (simp add: correct_loop_append Let_def)
  have "fst (correct_loop self (before @ p # after) acc) = n + 1 + int (length after)"
    unfolding loop by (rule correct_loop_processed)
  with f same cut loop replace_elsewhere [of _ p self w] show ?thesis by blast
qed

theorem io_failure_is_local_witness:
  "correct_loop built_self [[''proj'', ''Broken.asset'']] (0, 0, guarded)
     = (1, 0, add_log (UpdateError [''proj'', ''Broken.asset'']) guarded)
   \<and> read_text guarded [''proj'', ''Scene.unity''] = Some (''m_Script: {guid: '' @ guid_a @ ''}'')
   \<and> apply_mappings (guid_mappings built_self) (''m_Script: {guid: '' @ guid_a @ ''}'')
        = ''m_Script: {guid: '' @ guid_b @ ''}''
   \<and> \<not> writable (files guarded [''proj'', ''Scene.unity''])
   \<and> broken_write (files guarded [''proj'', ''Scene.unity'']) = Some 10
   \<and> \<not> fst (replace_guids_in_file built_self [''proj'', ''Scene.unity'']
              (add_log (UpdateError [''proj'', ''Broken.asset'']) guarded))
   \<and> logged (snd (replace_guids_in_file built_self [''proj'', ''Scene.unity'']
              (add_log (UpdateError [''proj'', ''Broken.asset'']) guarded)))
       = [UpdateError [''proj'', ''Broken.asset''], UpdateError [''proj'', ''Scene.unity'']]
   \<and> read_text (snd (replace_guids_in_file built_self [''proj'', ''Scene.unity'']
              (add_log (UpdateError [''proj'', ''Broken.asset'']) guarded))) [''proj'', ''Scene.unity'']
       = Some ''m_Script: ''
   \<and> files (snd (replace_guids_in_file built_self [''proj'', ''Scene.unity'']
              (add_log (UpdateError [''proj'', ''Broken.asset'']) guarded))) [''proj'', ''Other.unity'']
       = files guarded [''proj'', ''Other.unity'']
   \<and> fst (correct_loop built_self
        ([[''proj'', ''Broken.asset'']] @ [''proj'', ''Scene.unity''] # [[''proj'', ''Other.unity'']])
        (0, 0, guarded)) = 3
   \<and> fst (snd (correct_loop built_self
        ([[''proj'', ''Broken.asset'']] @ [''proj'', ''Scene.unity''] # [[''proj'', ''Other.unity'']])
        (0, 0, guarded))) = 1"
proof -
  let ?w = "add_log (UpdateError [''proj'', ''Broken.asset'']) guarded"
  let ?s = "''m_Script: {guid: '' @ guid_a @ ''}''"
  let ?r = "replace_guids_in_file built_self [''proj'', ''Scene.unity''] ?w"
  have n: "read_text guarded [''proj'', ''Broken.asset''] = None"
    by code_simp
  have b: "correct_loop built_self [[''proj'', ''Broken.asset'']] (0, 0, guarded) = (1, 0, ?w)"
    using replace_unread [OF n, of built_self] by (simp add: Let_def)
  have r0: "read_text guarded [''proj'', ''Scene.unity''] = Some ?s"
    by code_simp
  then have r: "read_text ?w [''proj'', ''Scene.unity''] = Some ?s"
    by simp
  have a: "apply_mappings (guid_mappings built_self) ?s = ''m_Script: {guid: '' @ guid_b @ ''}''"
    by code_simp
  have c: "apply_mappings (guid_mappings built_self) ?s \<noteq> ?s"
    by code_simp
  have l: "\<not> writable (files guarded [''proj'', ''Scene.unity''])"
    by code_simp
  have k: "broken_write (files guarded [''proj'', ''Scene.unity'']) = Some 10"
    by code_simp
  have t: "take 10 (''m_Script: {guid: '' @ guid_b @ ''}'') = ''m_Script: ''"
    by code_simp
  have e: "logged guarded = []"
    by code_simp
  have m: "fst (snd (correct_loop built_self
        ([[''proj'', ''Broken.asset'']] @ [''proj'', ''Scene.unity''] # [[''proj'', ''Other.unity'']])
        (0, 0, guarded))) = 1"
    by code_simp
  have f: "read_text ?w [''proj'', ''Scene.unity''] = None
          \<or> (\<exists>s. read_text ?w [''proj'', ''Scene.unity''] = Some s
                \<and> apply_mappings (guid_mappings built_self) s \<noteq> s
                \<and> \<not> writable (files ?w [''proj'', ''Scene.unity'']))"
    using r c l by simp
  note th = io_failure_is_local [OF b f, of "[[''proj'', ''Other.unity'']]"]
  from th have 1: "\<not> fst ?r" by blast
  from th e have 2: "logged (snd ?r)
      = [UpdateError [''proj'', ''Broken.asset''], UpdateError [''proj'', ''Scene.unity'']]"
    by simp
  from th r k have "read_text (snd ?r) [''proj'', ''Scene.unity'']
      = Some (take 10 (apply_mappings (guid_mappings built_self) ?s))"
    by simp
  then have 3: "read_text (snd ?r) [''proj'', ''Scene.unity''] = Some ''m_Script: ''"
    unfolding a t .
  from th have 4: "files (snd ?r) [''proj'', ''Other.unity''] = files guarded [''proj'', ''Other.unity'']"
    by simp
  from th have "fst (correct_loop built_self
        ([[''proj'', ''Broken.asset'']] @ [''proj'', ''Scene.unity''] # [[''proj'', ''Other.unity'']])
        (0, 0, guarded)) = 1 + 1 + int (length [[''proj'', ''Other.unity'']])"
    by blast
  then have 5: "fst (correct_loop built_self
        ([[''proj'', ''Broken.asset'']] @ [''proj'', ''Scene.unity''] # [[''proj'', ''Other.unity'']])
        (0, 0, guarded)) = 3"
    by (simp del: correct_loop.simps)
  from b r0 a l k 1 2 3 4 5 m show ?thesis by blast
qed

section \<open>Extraction of the identifier\<close>

lemma hex_not_space: "is_hex c \<Longrightarrow> \<not> is_space c"
  by (auto simp: is_hex_def is_space_def Let_def)

lemma lower_char_hex: "is_hex c \<Longrightarrow> is_lower_hex (lower_char c)"
  by (auto simp: is_hex_def is_lower_hex_def lower_char_def Let_def)

lemma lower_hex: "list_all is_hex g \<Longrightarrow> list_all is_lower_hex (lower g)"
  by (induction g) (simp_all add: lower_def lower_char_hex)

lemma length_lower [simp]: "length (lower g) = length g"
  by (simp add: lower_def)

lemma dropWhile_span:
  "list_all P (take n r) \<Longrightarrow> drop n r \<noteq> [] \<Longrightarrow> \<not> P (hd (drop n r)) \<Longrightarrow> dropWhile P r = drop n r"
proof -
  assume a: "list_all P (take n r)" and b: "drop n r \<noteq> []" and c: "\<not> P (hd (drop n r))"
  have "dropWhile P r = dropWhile P (take n r @ drop n r)" by simp
  also have "\<dots> = dropWhile P (drop n r)"
    using a by (intro dropWhile_append2) (simp add: list_all_iff)
  also have "\<dots> = drop n r"
    using b c by (cases "drop n r") simp_all
  finally show ?thesis .
qed

lemma matches_at_bound: "matches_at s i n g \<Longrightarrow> n \<le> length s"
proof -
  assume m: "matches_at s i n g"
  then have a: "g = take 32 (drop (i + 5 + n) s)" and b: "length g = 32"
    unfolding matches_at_def by blast+
  from b [unfolded a] show ?thesis by simp
qed

lemma has_match_at_iff: "has_match_at s i \<longleftrightarrow> (\<exists>n g. matches_at s i n g)"
proof
  assume "has_match_at s i"
  then show "\<exists>n g. matches_at s i n g"
    by (auto simp: has_match_at_def list_ex_iff)
next
  assume "\<exists>n g. matches_at s i n g"
  then obtain n g where m: "matches_at s i n g" by blast
  then have "g = take 32 (drop (i + 5 + n) s)" and "n \<le> length s"
    by (simp_all add: matches_at_def matches_at_bound)
  with m have "n \<in> set [0..<Suc (length s)]"
    and "matches_at s i n (take 32 (drop (i + 5 + n) s))"
    by auto
  then show "has_match_at s i"
    unfolding has_match_at_def list_ex_iff by (rule bexI [rotated])
qed

lemma matches_at_0:
  "matches_at t 0 n g \<longleftrightarrow>
     prefix ''guid:'' t \<and> list_all is_space (take n (drop 5 t))
     \<and> g = take 32 (drop n (drop 5 t)) \<and> length g = 32 \<and> list_all is_hex g"
  by (simp add: matches_at_def add.commute)

lemma match_here_iff: "match_here t = Some g \<longleftrightarrow> (\<exists>n. matches_at t 0 n g)"
proof
  assume "match_here t = Some g"
  then have p: "prefix ''guid:'' t"
    and g: "g = take 32 (dropWhile is_space (drop 5 t))" "length g = 32" "list_all is_hex g"
    by (auto simp: match_here_def Let_def split: if_splits)
  let ?n = "length (takeWhile is_space (drop 5 t))"
  have tk: "take ?n (drop 5 t) = takeWhile is_space (drop 5 t)"
    by (rule takeWhile_eq_take [symmetric])
  have dr: "drop ?n (drop 5 t) = dropWhile is_space (drop 5 t)"
    by (rule dropWhile_eq_drop [symmetric])
  have sp: "list_all is_space (takeWhile is_space (drop 5 t))"
    by (auto simp: list_all_iff dest: set_takeWhileD)
  have "matches_at t 0 ?n g"
    unfolding matches_at_0 tk dr using p g sp by blast
  then show "\<exists>n. matches_at t 0 n g" ..
next
  assume "\<exists>n. matches_at t 0 n g"
  then obtain n where m: "matches_at t 0 n g" ..
  then have p: "prefix ''guid:'' t" and sp: "list_all is_space (take n (drop 5 t))"
    and g: "g = take 32 (drop n (drop 5 t))" "length g = 32" "list_all is_hex g"
    unfolding matches_at_0 by blast+
  from g have ne: "drop n (drop 5 t) \<noteq> []" by auto
  from g ne have "is_hex (hd (drop n (drop 5 t)))"
    by (cases "drop n (drop 5 t)") auto
  then have "\<not> is_space (hd (drop n (drop 5 t)))" by (rule hex_not_space)
  with sp ne have "dropWhile is_space (drop 5 t) = drop n (drop 5 t)"
    by (rule dropWhile_span)
  with p g show "match_here t = Some g"
    unfolding match_here_def Let_def by simp
qed

lemma matches_at_Suc: "matches_at (c # cs) (Suc i) n g \<longleftrightarrow> matches_at cs i n g"
  unfolding matches_at_def by (simp only: add_Suc drop_Suc_Cons)

lemma re_search_Some:
  "re_search s = Some g \<longleftrightarrow>
     (\<exists>i n. matches_at s i n g \<and> (\<forall>j<i. \<not> has_match_at s j))"
proof (induction s)
  case Nil
  have "\<And>i n. \<not> matches_at [] i n g" by (simp add: matches_at_def)
  moreover have "match_here [] = None" by (simp add: match_here_def)
  ultimately show ?case by simp
next
  case (Cons c cs)
  show ?case
  proof (cases "match_here (c # cs)")
    case (Some g')
    then obtain n' where m': "matches_at (c # cs) 0 n' g'" by (auto simp: match_here_iff)
    have "g' = g" if "matches_at (c # cs) i n g" "\<forall>j<i. \<not> has_match_at (c # cs) j" for i n
    proof (cases i)
      case 0
      with that have "match_here (c # cs) = Some g" by (auto simp: match_here_iff)
      with Some show ?thesis by simp
    next
      case (Suc k)
      with that m' show ?thesis by (auto simp: has_match_at_iff)
    qed
    moreover have "\<exists>i n. matches_at (c # cs) i n g' \<and> (\<forall>j<i. \<not> has_match_at (c # cs) j)"
      using m' by (intro exI [of _ 0] exI [of _ n']) simp
    ultimately show ?thesis using Some by auto
  next
    case None
    have no: "\<not> has_match_at (c # cs) 0"
    proof
      assume "has_match_at (c # cs) 0"
      then obtain n0 g0 where "matches_at (c # cs) 0 n0 g0"
        unfolding has_match_at_iff by blast
      then have "match_here (c # cs) = Some g0"
        unfolding match_here_iff by blast
      with None show False by simp
    qed
    have "(\<exists>i n. matches_at (c # cs) i n g \<and> (\<forall>j<i. \<not> has_match_at (c # cs) j))
        \<longleftrightarrow> (\<exists>i n. matches_at cs i n g \<and> (\<forall>j<i. \<not> has_match_at cs j))" (is "?L \<longleftrightarrow> ?R")
    proof
      assume ?L
      then obtain i n where m: "matches_at (c # cs) i n g" and l: "\<forall>j<i. \<not> has_match_at (c # cs) j"
        by blast
      from m no obtain k where k: "i = Suc k"
        by (cases i) (auto simp: has_match_at_iff)
      from m k have "matches_at cs k n g" by (simp add: matches_at_Suc)
      moreover have "\<forall>j<k. \<not> has_match_at cs j"
      proof (intro allI impI)
        fix j assume "j < k"
        with l k have "\<not> has_match_at (c # cs) (Suc j)" by simp
        then show "\<not> has_match_at cs j" by (simp add: has_match_at_iff matches_at_Suc)
      qed
      ultimately show ?R by blast
    next
      assume ?R
      then obtain i n where m: "matches_at cs i n g" and l: "\<forall>j<i. \<not> has_match_at cs j"
        by blast
      from m have "matches_at (c # cs) (Suc i) n g" by (simp add: matches_at_Suc)
      moreover have "\<forall>j<Suc i. \<not> has_match_at (c # cs) j"
      proof (intro allI impI)
        fix j assume "j < Suc i"
        show "\<not> has_match_at (c # cs) j"
        proof (cases j)
          case 0 with no show ?thesis by simp
        next
          case (Suc k)
          with \<open>j < Suc i\<close> l have "\<not> has_match_at cs k" by simp
          with Suc show ?thesis by (simp add: has_match_at_iff matches_at_Suc)
        qed
      qed
      ultimately show ?L by blast
    qed
    with None Cons.IH show ?thesis by simp
  qed
qed

lemma re_search_None: "re_search s = None \<longleftrightarrow> (\<forall>i. \<not> has_match_at s i)"
proof
  assume n: "re_search s = None"
  show "\<forall>i. \<not> has_match_at s i"
  proof (rule ccontr)
    assume "\<not> (\<forall>i. \<not> has_match_at s i)"
    then have ex: "\<exists>i. has_match_at s i" by blast
    define k where "k = (LEAST i. has_match_at s i)"
    from ex have hk: "has_match_at s k" unfolding k_def by (metis LeastI)
    have lk: "\<forall>j<k. \<not> has_match_at s j" unfolding k_def using not_less_Least by blast
    from hk obtain n' g where "matches_at s k n' g" by (auto simp: has_match_at_iff)
    with lk have "re_search s = Some g" unfolding re_search_Some by blast
    with n show False by simp
  qed
next
  assume a: "\<forall>i. \<not> has_match_at s i"
  show "re_search s = None"
  proof (cases "re_search s")
    case (Some g)
    then obtain i n where "matches_at s i n g" unfolding re_search_Some by blast
    with a show ?thesis by (auto simp: has_match_at_iff)
  qed simp
qed


lemma no_match_beyond: "length s \<le> i \<Longrightarrow> \<not> has_match_at s i"
  by (simp add: has_match_at_iff matches_at_def)

text \<open>
  Claim C4. For a descriptor that can be read: if the pattern matches its text from
  position \<open>i\<close> with group \<open>g\<close> and matches from no earlier position, the function returns
  \<open>g\<close> in lower case, which is 32 characters among the digits and a to f, whatever the case
  of the letters in the text; if the pattern matches from no position it returns None. The
  world is returned unchanged in both cases.
\<close>

theorem extract_first_match:
  assumes "read_text w p = Some s"
  shows "(\<forall>i n g. matches_at s i n g \<and> (\<forall>j<i. \<not> has_match_at s j)
            \<longrightarrow> extract_guid_from_meta p w = (Some (lower g), w)
                \<and> length (lower g) = 32 \<and> list_all is_lower_hex (lower g))
       \<and> ((\<forall>i<length s. \<not> has_match_at s i) \<longrightarrow> extract_guid_from_meta p w = (None, w))"
proof (intro conjI allI impI)
  fix i n g
  assume m: "matches_at s i n g \<and> (\<forall>j<i. \<not> has_match_at s j)"
  then have "re_search s = Some g" unfolding re_search_Some by blast
  with assms show "extract_guid_from_meta p w = (Some (lower g), w)"
    by (simp add: extract_guid_from_meta_def)
  from m have "length g = 32" and "list_all is_hex g"
    unfolding matches_at_def by blast+
  then show "length (lower g) = 32" and "list_all is_lower_hex (lower g)"
    by (simp_all add: lower_hex)
next
  assume "\<forall>i<length s. \<not> has_match_at s i"
  then have "\<forall>i. \<not> has_match_at s i"
    using no_match_beyond [of s] by (metis not_le)
  then have "re_search s = None" by (simp add: re_search_None)
  with assms show "extract_guid_from_meta p w = (None, w)"
    by (simp add: extract_guid_from_meta_def)
qed

theorem extract_first_match_witness:
  "read_text descriptors [''Two.meta''] = Some two_guids
   \<and> matches_at two_guids 17 2 ''0123456789ABCDEFabcdef0123456789''
   \<and> list_all (\<lambda>j. \<not> has_match_at two_guids j) [0..<17]
   \<and> extract_guid_from_meta [''Two.meta''] descriptors
       = (Some ''0123456789abcdefabcdef0123456789'', descriptors)
   \<and> read_text descriptors [''Plain.meta''] = Some ''fileFormatVersion: 2''
   \<and> list_all (\<lambda>j. \<not> has_match_at ''fileFormatVersion: 2'' j) [0..<20]
   \<and> extract_guid_from_meta [''Plain.meta''] descriptors = (None, descriptors)"
proof -
  have r1: "read_text descriptors [''Two.meta''] = Some two_guids"
    by code_simp
  have m: "matches_at two_guids 17 2 ''0123456789ABCDEFabcdef0123456789''"
    by code_simp
  have e: "list_all (\<lambda>j. \<not> has_match_at two_guids j) [0..<17]"
    by code_simp
  then have e': "\<forall>j<17. \<not> has_match_at two_guids j"
    by (simp add: list_all_iff)
  have l: "lower ''0123456789ABCDEFabcdef0123456789'' = ''0123456789abcdefabcdef0123456789''"
    by code_simp
  have r2: "read_text descriptors [''Plain.meta''] = Some ''fileFormatVersion: 2''"
    by code_simp
  have n: "list_all (\<lambda>j. \<not> has_match_at ''fileFormatVersion: 2'' j) [0..<20]"
    by code_simp
  then have n': "\<forall>j<length ''fileFormatVersion: 2''. \<not> has_match_at ''fileFormatVersion: 2'' j"
    by (simp add: list_all_iff)
  from extract_first_match [OF r1] m e' l
  have "extract_guid_from_meta [''Two.meta''] descriptors
          = (Some ''0123456789abcdefabcdef0123456789'', descriptors)"
    by metis
  moreover from extract_first_match [OF r2] n'
  have "extract_guid_from_meta [''Plain.meta''] descriptors = (None, descriptors)"
    by blast
  ultimately show ?thesis using r1 m e r2 n by blast
qed

section \<open>The build phase\<close>

lemma extract_fst_cong:
  "files w' = files w \<Longrightarrow> fst (extract_guid_from_meta p w') = fst (extract_guid_from_meta p w)"
  by (simp add: extract_guid_from_meta_def read_text_def split: option.splits)

lemma find_actual_cong:
  "path_exists w' = path_exists w \<Longrightarrow> rglob w' = rglob w \<Longrightarrow>
   search_raises w' = search_raises w \<Longrightarrow> actual_path self' = actual_path self \<Longrightarrow>
   find_actual_meta self' f w' = find_actual_meta self f w"
  by (simp add: find_actual_meta_def)

lemma correlate_cong:
  "files w' = files w \<Longrightarrow> path_exists w' = path_exists w \<Longrightarrow> rglob w' = rglob w \<Longrightarrow>
   search_raises w' = search_raises w \<Longrightarrow>
   actual_path self' = actual_path self \<Longrightarrow> correlate self' w' d = correlate self w d"
  by (simp add: correlate_def find_actual_cong [of w' w self' self] extract_fst_cong [of w' w]
        split: option.splits sum.splits)

lemma step_log_cong:
  "files w' = files w \<Longrightarrow> path_exists w' = path_exists w \<Longrightarrow> rglob w' = rglob w \<Longrightarrow>
   search_raises w' = search_raises w \<Longrightarrow>
   actual_path self' = actual_path self \<Longrightarrow> step_log self' w' d = step_log self w d"
  by (simp add: step_log_def find_actual_cong [of w' w self' self]
        correlate_cong [of w' w self' self] read_text_def
        split: option.splits sum.splits)

lemma build_step_table:
  "fst (build_step d (self, w)) =
     self\<lparr>guid_mappings := record_pair (correlate self w d) (guid_mappings self)\<rparr>"
proof (cases "find_actual_meta self (stem d) w")
  case (Inl e)
  then show ?thesis by (simp add: build_step_def correlate_def record_pair_def)
next
  case (Inr found)
  show ?thesis
  proof (cases found)
    case None
    with Inr show ?thesis by (simp add: build_step_def correlate_def record_pair_def)
  next
    case (Some a)
    have "fst (extract_guid_from_meta a (snd (extract_guid_from_meta d w)))
            = fst (extract_guid_from_meta a w)"
      by (rule extract_fst_cong) (simp add: extract_static)
    with Inr Some show ?thesis
      by (simp add: build_step_def correlate_def record_pair_def Let_def)
  qed
qed

lemma extract_log:
  "logged (snd (extract_guid_from_meta x w))
     = logged w @ map MetaReadError (filter (\<lambda>x. read_text w x = None) [x])"
  by (simp add: extract_guid_from_meta_def split: option.splits)

lemma build_step_log:
  "logged (snd (build_step d (self, w))) = logged w @ step_log self w d"
proof (cases "find_actual_meta self (stem d) w")
  case (Inl e)
  then show ?thesis by (simp add: build_step_def step_log_def)
next
  case (Inr found)
  show ?thesis
  proof (cases found)
    case None
    with Inr show ?thesis by (simp add: build_step_def step_log_def)
  next
    case (Some a)
    let ?w1 = "snd (extract_guid_from_meta d w)"
    have e: "fst (extract_guid_from_meta a ?w1) = fst (extract_guid_from_meta a w)"
      by (rule extract_fst_cong) (simp add: extract_static)
    have r: "read_text ?w1 a = read_text w a"
      by (simp add: read_text_def extract_static)
    have l: "logged (snd (extract_guid_from_meta a ?w1))
               = logged w @ map MetaReadError (filter (\<lambda>x. read_text w x = None) [d, a])"
      by (simp add: extract_log r)
    show ?thesis
    proof (cases "truthy (fst (extract_guid_from_meta d w)) \<and> truthy (fst (extract_guid_from_meta a w))")
      case True
      with Inr Some e l show ?thesis
        by (simp add: build_step_def step_log_def correlate_def Let_def)
    next
      case False
      with Inr Some e l show ?thesis
        by (simp add: build_step_def step_log_def correlate_def Let_def)
    qed
  qed
qed

lemma build_fold_table:
  "fst (foldl (\<lambda>sw d. build_step d sw) (self, w) ds) =
     self\<lparr>guid_mappings := foldl (\<lambda>m d. record_pair (correlate self w d) m) (guid_mappings self) ds\<rparr>"
proof (induction ds arbitrary: self w)
  case Nil
  show ?case by simp
next
  case (Cons d ds)
  let ?self' = "self\<lparr>guid_mappings := record_pair (correlate self w d) (guid_mappings self)\<rparr>"
  let ?w' = "snd (build_step d (self, w))"
  have st: "build_step d (self, w) = (?self', ?w')"
    using build_step_table [of d self w] by (simp add: prod_eq_iff)
  have c: "correlate ?self' ?w' x = correlate self w x" for x
  proof (rule correlate_cong)
    show "files ?w' = files w" "path_exists ?w' = path_exists w" "rglob ?w' = rglob w"
      "search_raises ?w' = search_raises w"
      using build_step_static [of d "(self, w)"] unfolding snd_conv by blast+
    show "actual_path ?self' = actual_path self" by simp
  qed
  have "foldl (\<lambda>sw d. build_step d sw) (self, w) (d # ds)
          = foldl (\<lambda>sw d. build_step d sw) (?self', ?w') ds"
    by (simp add: st [symmetric])
  with Cons.IH [of ?self' ?w'] show ?case
    by (simp add: c)
qed

lemma build_fold_log:
  "logged (snd (foldl (\<lambda>sw d. build_step d sw) (self, w) ds))
     = logged w @ concat (map (step_log self w) ds)"
proof (induction ds arbitrary: self w)
  case Nil
  show ?case by simp
next
  case (Cons d ds)
  let ?self' = "self\<lparr>guid_mappings := record_pair (correlate self w d) (guid_mappings self)\<rparr>"
  let ?w' = "snd (build_step d (self, w))"
  have st: "build_step d (self, w) = (?self', ?w')"
    using build_step_table [of d self w] by (simp add: prod_eq_iff)
  have c: "step_log ?self' ?w' x = step_log self w x" for x
  proof (rule step_log_cong)
    show "files ?w' = files w" "path_exists ?w' = path_exists w" "rglob ?w' = rglob w"
      "search_raises ?w' = search_raises w"
      using build_step_static [of d "(self, w)"] unfolding snd_conv by blast+
    show "actual_path ?self' = actual_path self" by simp
  qed
  have "foldl (\<lambda>sw d. build_step d sw) (self, w) (d # ds)
          = foldl (\<lambda>sw d. build_step d sw) (?self', ?w') ds"
    by (simp add: st [symmetric])
  with Cons.IH [of ?self' ?w'] build_step_log [of d self w] show ?case
    by (simp add: c)
qed

lemma build_log:
  "logged (snd (build_guid_mappings self w))
     = logged w @ concat (map (step_log self w) (rglob w (decompiled_path self) ''*.meta''))"
  by (simp add: build_guid_mappings_def build_fold_log)

lemma build_table:
  "guid_mappings (fst (build_guid_mappings self w)) =
     foldl (\<lambda>m d. record_pair (correlate self w d) m) (guid_mappings self)
       (rglob w (decompiled_path self) ''*.meta'')"
  by (simp add: build_guid_mappings_def build_fold_table)

lemma fold_pairs_append:
  "foldl (\<lambda>m d. record_pair (c d) m) m (xs @ ys) =
     foldl (\<lambda>m d. record_pair (c d) m) (foldl (\<lambda>m d. record_pair (c d) m) m xs) ys"
  by simp

lemma fold_pairs_untouched:
  "\<forall>d \<in> set ds. \<forall>r. c d \<noteq> Some (g, r) \<Longrightarrow>
   map_of (foldl (\<lambda>m d. record_pair (c d) m) m ds) g = map_of m g"
proof (induction ds arbitrary: m)
  case Nil
  show ?case by simp
next
  case (Cons d ds)
  have "map_of (record_pair (c d) m) g = map_of m g"
    using Cons.prems by (auto simp: record_pair_def update_conv' split: option.splits)
  with Cons show ?case by simp
qed

lemma fold_pairs_last:
  assumes "c d = Some (g, r)" and "\<forall>d' \<in> set ys. \<forall>r'. c d' \<noteq> Some (g, r')"
  shows "map_of (foldl (\<lambda>m d. record_pair (c d) m) m (xs @ d # ys)) g = Some r"
proof -
  let ?m = "foldl (\<lambda>m d. record_pair (c d) m) m xs"
  have "map_of (record_pair (c d) ?m) g = Some r"
    using assms(1) by (simp add: record_pair_def update_conv')
  with fold_pairs_untouched [OF assms(2), of "record_pair (c d) ?m"] show ?thesis
    by simp
qed

lemma fold_pairs_present:
  "d \<in> set ds \<Longrightarrow> c d = Some (g, r) \<Longrightarrow>
   \<exists>d' \<in> set ds. \<exists>r'. c d' = Some (g, r') \<and> map_of (foldl (\<lambda>m d. record_pair (c d) m) m ds) g = Some r'"
proof (induction ds arbitrary: m rule: rev_induct)
  case Nil
  then show ?case by simp
next
  case (snoc x xs)
  show ?case
  proof (cases "\<exists>r'. c x = Some (g, r')")
    case True
    then obtain r' where "c x = Some (g, r')" ..
    then show ?thesis
      by (auto simp: record_pair_def update_conv' intro!: bexI [of _ x])
  next
    case False
    with snoc.prems have "d \<in> set xs" by auto
    from snoc.IH [OF this snoc.prems(2), of m] obtain d' r' where
      "d' \<in> set xs" "c d' = Some (g, r')"
      "map_of (foldl (\<lambda>m d. record_pair (c d) m) m xs) g = Some r'" by blast
    moreover have "map_of (record_pair (c x) (foldl (\<lambda>m d. record_pair (c d) m) m xs)) g
        = map_of (foldl (\<lambda>m d. record_pair (c d) m) m xs) g"
      using False by (auto simp: record_pair_def update_conv' split: option.splits)
    ultimately show ?thesis by auto
  qed
qed

lemma extract_is_guid:
  assumes "fst (extract_guid_from_meta p w) = Some g"
  shows "is_guid g"
proof -
  from assms obtain s g0 where "re_search s = Some g0" and g: "g = lower g0"
    by (auto simp: extract_guid_from_meta_def split: option.splits)
  then obtain i n where "matches_at s i n g0" unfolding re_search_Some by blast
  then have "length g0 = 32" and "list_all is_hex g0"
    unfolding matches_at_def by blast+
  with g show ?thesis by (simp add: is_guid_def lower_hex)
qed

lemma correlate_SomeD:
  assumes "correlate self w d = Some (g, r)"
  shows "\<exists>a. find_actual_meta self (stem d) w = Inr (Some a)
           \<and> fst (extract_guid_from_meta d w) = Some g
           \<and> fst (extract_guid_from_meta a w) = Some r"
  using assms
  by (auto simp: correlate_def Let_def truthy_def split: option.splits sum.splits if_splits)

lemma correlate_SomeI:
  assumes "find_actual_meta self (stem d) w = Inr (Some a)"
    and "fst (extract_guid_from_meta d w) = Some g"
    and "fst (extract_guid_from_meta a w) = Some r"
  shows "correlate self w d = Some (g, r)"
proof -
  from assms(2,3) have "is_guid g" "is_guid r" by (auto dest: extract_is_guid)
  then have "g \<noteq> []" "r \<noteq> []" by (auto simp: is_guid_def)
  with assms show ?thesis by (simp add: correlate_def Let_def truthy_def)
qed

lemma correlate_is_guid:
  "correlate self w d = Some (g, r) \<Longrightarrow> is_guid g \<and> is_guid r"
  by (auto dest!: correlate_SomeD dest: extract_is_guid)

lemma set_update_subset: "set (AList.update k v m) \<subseteq> insert (k, v) (set m)"
  by (induction m) auto

lemma record_pair_keeps:
  assumes "\<forall>(k, v) \<in> set m. P k v" and "\<And>k v. c = Some (k, v) \<Longrightarrow> P k v"
  shows "\<forall>(k, v) \<in> set (record_pair c m). P k v"
proof (cases c)
  case None
  with assms(1) show ?thesis by (simp add: record_pair_def)
next
  case (Some kv)
  obtain k v where kv: "kv = (k, v)" by (cases kv)
  with Some assms(2) have "P k v" by simp
  with assms(1) set_update_subset [of k v m] Some kv show ?thesis
    by (auto simp: record_pair_def)
qed

lemma fold_pairs_keeps:
  assumes "\<forall>(k, v) \<in> set m. P k v" and "\<And>d k v. c d = Some (k, v) \<Longrightarrow> P k v"
  shows "\<forall>(k, v) \<in> set (foldl (\<lambda>m d. record_pair (c d) m) m ds). P k v"
  using assms(1)
proof (induction ds arbitrary: m)
  case Nil
  then show ?case by simp
next
  case (Cons d ds)
  from record_pair_keeps [of m P "c d", OF Cons.prems] assms(2)
  have "\<forall>(k, v) \<in> set (record_pair (c d) m). P k v" by blast
  from Cons.IH [OF this] show ?case by simp
qed

lemma built_table_guids:
  assumes "\<forall>(k, v) \<in> set (guid_mappings self). is_guid k \<and> is_guid v"
  shows "\<forall>(k, v) \<in> set (guid_mappings (fst (build_guid_mappings self w))). is_guid k \<and> is_guid v"
  unfolding build_table
  by (rule fold_pairs_keeps [OF assms]) (rule correlate_is_guid)

lemma record_pair_distinct:
  "distinct (map fst m) \<Longrightarrow> distinct (map fst (record_pair c m))"
  by (auto simp: record_pair_def distinct_update split: option.splits)

lemma fold_pairs_distinct:
  "distinct (map fst m) \<Longrightarrow> distinct (map fst (foldl (\<lambda>m d. record_pair (c d) m) m ds))"
  by (induction ds arbitrary: m) (simp_all add: record_pair_distinct)

lemma lower_fixed: "list_all is_lower_hex k \<Longrightarrow> lower k = k"
  by (induction k) (auto simp: lower_def lower_char_def is_lower_hex_def Let_def)

lemma sublist_same_length: "sublist xs ys \<Longrightarrow> length xs = length ys \<Longrightarrow> xs = ys"
  by (auto simp: sublist_def)

text \<open>
  Claim C10. When two descriptors of the decompiled tree, \<open>d1\<close> processed before \<open>d2\<close>, give
  the same old identifier \<open>g\<close> with the reference identifiers \<open>r1\<close> and \<open>r2\<close>, and no descriptor
  processed after \<open>d2\<close> gives \<open>g\<close> again, the table built maps \<open>g\<close> to \<open>r2\<close>, the identifier
  obtained with the last of them, and holds no other entry for \<open>g\<close>.
\<close>

theorem last_descriptor_wins:
  assumes "rglob w (decompiled_path self) ''*.meta'' = xs @ d1 # ys @ d2 # zs"
    and "correlate self w d1 = Some (g, r1)"
    and "correlate self w d2 = Some (g, r2)"
    and "\<forall>d \<in> set zs. \<forall>r. correlate self w d \<noteq> Some (g, r)"
    and "distinct (map fst (guid_mappings self))"
  shows "map_of (guid_mappings (fst (build_guid_mappings self w))) g = Some r2
       \<and> (\<forall>r. (g, r) \<in> set (guid_mappings (fst (build_guid_mappings self w))) \<longrightarrow> r = r2)"
proof -
  let ?t = "guid_mappings (fst (build_guid_mappings self w))"
  have "rglob w (decompiled_path self) ''*.meta'' = (xs @ d1 # ys) @ d2 # zs"
    using assms(1) by simp
  then have m: "map_of ?t g = Some r2"
    unfolding build_table using fold_pairs_last [OF assms(3,4)] by metis
  have "distinct (map fst ?t)"
    unfolding build_table by (rule fold_pairs_distinct [OF assms(5)])
  then have "r = r2" if "(g, r) \<in> set ?t" for r
    using map_of_is_SomeI [OF _ that] m by simp
  with m show ?thesis by blast
qed

text \<open>
  Claim C2, amended. For a descriptor \<open>d\<close> of the decompiled tree, let \<open>a\<close> be the first existing
  path that the glob for the stem of \<open>d\<close> yields under the package tree. If the identifiers
  of \<open>d\<close> and of \<open>a\<close> are both extracted, the table built has an entry for the identifier of
  \<open>d\<close>; it maps it to the identifier of \<open>a\<close> when every descriptor of the decompiled tree
  with that same identifier is correlated with that same reference identifier.
\<close>

theorem correlated_pairs_are_recorded:
  assumes "d \<in> set (rglob w (decompiled_path self) ''*.meta'')"
    and "find_actual_meta self (stem d) w = Inr (Some a)"
    and "fst (extract_guid_from_meta d w) = Some g"
    and "fst (extract_guid_from_meta a w) = Some r"
  shows "g \<in> fst ` set (guid_mappings (fst (build_guid_mappings self w)))
       \<and> ((\<forall>d' \<in> set (rglob w (decompiled_path self) ''*.meta'').
              \<forall>r'. correlate self w d' = Some (g, r') \<longrightarrow> r' = r)
            \<longrightarrow> map_of (guid_mappings (fst (build_guid_mappings self w))) g = Some r)"
proof -
  let ?ds = "rglob w (decompiled_path self) ''*.meta''"
  let ?t = "guid_mappings (fst (build_guid_mappings self w))"
  have c: "correlate self w d = Some (g, r)"
    using assms(2-4) by (rule correlate_SomeI)
  from fold_pairs_present [OF assms(1), of "correlate self w" g r "guid_mappings self"] c
  obtain d' r' where d': "d' \<in> set ?ds" "correlate self w d' = Some (g, r')"
    and m: "map_of ?t g = Some r'"
    unfolding build_table by blast
  from m have "(g, r') \<in> set ?t" by (rule map_of_SomeD)
  then have "g \<in> fst ` set ?t" by force
  moreover have "map_of ?t g = Some r"
    if "\<forall>d' \<in> set ?ds. \<forall>r'. correlate self w d' = Some (g, r') \<longrightarrow> r' = r"
    using that d' m by blast
  ultimately show ?thesis by blast
qed

text \<open>
  Claim C2 as stated fails where the package tree has two descriptors with the stem of a
  descriptor of the decompiled tree: the pair made with the second one shares the stem and
  both identifiers are extracted, and the table does not map the one to the other.
\<close>

theorem first_reference_only:
  "[''dec'', ''Foo.meta''] \<in> set (rglob ambiguous (decompiled_path scenario_self) ''*.meta'')
   \<and> [''act'', ''y'', ''Foo.meta''] \<in> set (rglob ambiguous (actual_path scenario_self) ''*.meta'')
   \<and> stem [''dec'', ''Foo.meta''] = stem [''act'', ''y'', ''Foo.meta'']
   \<and> fst (extract_guid_from_meta [''dec'', ''Foo.meta''] ambiguous) = Some guid_a
   \<and> fst (extract_guid_from_meta [''act'', ''y'', ''Foo.meta''] ambiguous) = Some guid_c
   \<and> guid_mappings (fst (build_guid_mappings scenario_self ambiguous)) = [(guid_a, guid_b)]
   \<and> map_of (guid_mappings (fst (build_guid_mappings scenario_self ambiguous))) guid_a
        \<noteq> Some guid_c"
  by code_simp

text \<open>
  Claim C7 as stated fails for a descriptor that can be read and has no identifier line:
  the extraction returns None, the correlation is skipped, and neither the extraction nor
  the loop body nor the whole build phase logs anything about it.
\<close>

theorem missing_identifier_not_logged:
  "find_actual_meta scenario_self (stem [''dec'', ''Foo.meta'']) headless
     = Inr (Some [''act'', ''Foo.meta''])
   \<and> read_text headless [''dec'', ''Foo.meta''] = Some ''fileFormatVersion: 2''
   \<and> fst (extract_guid_from_meta [''dec'', ''Foo.meta''] headless) = None
   \<and> logged (snd (extract_guid_from_meta [''dec'', ''Foo.meta''] headless)) = []
   \<and> logged (snd (build_step [''dec'', ''Foo.meta''] (scenario_self, headless))) = []
   \<and> logged (snd (build_guid_mappings scenario_self headless)) = [Mapped ''Bar'' guid_a guid_c]"
  by code_simp

lemma step_log_logged:
  assumes "d \<in> set (rglob w (decompiled_path self) ''*.meta'')" and "e \<in> set (step_log self w d)"
  shows "e \<in> set (logged (snd (build_guid_mappings self w)))"
  unfolding build_log using assms by auto

lemma extract_unread:
  "read_text w p = None \<Longrightarrow> fst (extract_guid_from_meta p w) = None"
  by (simp add: extract_guid_from_meta_def)

text \<open>
  Claim C7, amended. Every per-item error that is an exception is recovered locally and
  accompanied by a log entry. A descriptor that cannot be read makes the extraction log
  an error and return None. The log of the build phase is, descriptor after descriptor in
  the order of the glob, what the loop body logs for each, and the table is built from the
  correlations of all of them: no failure stops the loop. For a descriptor whose search
  raises, the error of line 111 is in that log; for a descriptor whose own file or whose
  reference file cannot be read, the error of line 65 is; in both cases the descriptor gives no
  correlation. A target that cannot be read, or whose new content cannot be written, makes
  \<open>replace_guids_in_file\<close> return False and log an error. The one per-item failure without
  log entry is no exception: a descriptor that can be read and holds no match of the
  pattern makes the extraction return None with the world unchanged.
\<close>

theorem every_exception_is_logged:
  "(read_text w p = None \<longrightarrow> extract_guid_from_meta p w = (None, add_log (MetaReadError p) w))
   \<and> (read_text w p = Some s \<and> re_search s = None \<longrightarrow> extract_guid_from_meta p w = (None, w))
   \<and> logged (snd (build_guid_mappings self w))
       = logged w @ concat (map (step_log self w) (rglob w (decompiled_path self) ''*.meta''))
   \<and> guid_mappings (fst (build_guid_mappings self w))
       = foldl (\<lambda>m d. record_pair (correlate self w d) m) (guid_mappings self)
           (rglob w (decompiled_path self) ''*.meta'')
   \<and> (\<forall>d \<in> set (rglob w (decompiled_path self) ''*.meta'').
         (find_actual_meta self (stem d) w = Inl SearchError
            \<longrightarrow> ProcessingError d \<in> set (logged (snd (build_guid_mappings self w)))
                \<and> correlate self w d = None)
       \<and> (\<forall>a. find_actual_meta self (stem d) w = Inr (Some a)
                 \<and> (read_text w d = None \<or> read_text w a = None)
            \<longrightarrow> correlate self w d = None
                \<and> (read_text w d = None
                      \<longrightarrow> MetaReadError d \<in> set (logged (snd (build_guid_mappings self w))))
                \<and> (read_text w a = None
                      \<longrightarrow> MetaReadError a \<in> set (logged (snd (build_guid_mappings self w))))))
   \<and> (read_text w p = None
        \<or> (\<exists>s. read_text w p = Some s \<and> apply_mappings (guid_mappings self) s \<noteq> s
              \<and> \<not> writable (files w p))
      \<longrightarrow> \<not> fst (replace_guids_in_file self p w)
          \<and> logged (snd (replace_guids_in_file self p w)) = logged w @ [UpdateError p])"
proof -
  let ?ds = "rglob w (decompiled_path self) ''*.meta''"
  let ?log = "logged (snd (build_guid_mappings self w))"
  have 1: "read_text w p = None \<longrightarrow> extract_guid_from_meta p w = (None, add_log (MetaReadError p) w)"
    by (simp add: extract_guid_from_meta_def)
  have 2: "read_text w p = Some s \<and> re_search s = None \<longrightarrow> extract_guid_from_meta p w = (None, w)"
    by (simp add: extract_guid_from_meta_def)
  have 5: "ProcessingError d \<in> set ?log \<and> correlate self w d = None"
    if "d \<in> set ?ds" "find_actual_meta self (stem d) w = Inl SearchError" for d
  proof -
    from that(2) have "ProcessingError d \<in> set (step_log self w d)"
      by (simp add: step_log_def)
    with that(1) have "ProcessingError d \<in> set ?log" by (rule step_log_logged)
    moreover from that(2) have "correlate self w d = None" by (simp add: correlate_def)
    ultimately show ?thesis ..
  qed
  have 6: "correlate self w d = None
         \<and> (read_text w d = None \<longrightarrow> MetaReadError d \<in> set ?log)
         \<and> (read_text w a = None \<longrightarrow> MetaReadError a \<in> set ?log)"
    if "d \<in> set ?ds"
      "find_actual_meta self (stem d) w = Inr (Some a) \<and> (read_text w d = None \<or> read_text w a = None)"
    for d a
  proof -
    from that(2) have f: "find_actual_meta self (stem d) w = Inr (Some a)"
      and u: "read_text w d = None \<or> read_text w a = None" by simp_all
    from u have "fst (extract_guid_from_meta d w) = None \<or> fst (extract_guid_from_meta a w) = None"
      by (auto simp: extract_unread)
    with f have c: "correlate self w d = None"
      by (auto simp: correlate_def Let_def truthy_def)
    have "MetaReadError d \<in> set ?log" if "read_text w d = None"
    proof -
      from f that have "MetaReadError d \<in> set (step_log self w d)" by (simp add: step_log_def)
      with \<open>d \<in> set ?ds\<close> show ?thesis by (rule step_log_logged)
    qed
    moreover have "MetaReadError a \<in> set ?log" if "read_text w a = None"
    proof -
      from f that have "MetaReadError a \<in> set (step_log self w d)" by (simp add: step_log_def)
      with \<open>d \<in> set ?ds\<close> show ?thesis by (rule step_log_logged)
    qed
    ultimately show ?thesis using c by blast
  qed
  have 7: "\<not> fst (replace_guids_in_file self p w)
         \<and> logged (snd (replace_guids_in_file self p w)) = logged w @ [UpdateError p]"
    if "read_text w p = None
        \<or> (\<exists>s. read_text w p = Some s \<and> apply_mappings (guid_mappings self) s \<noteq> s
              \<and> \<not> writable (files w p))"
    using replace_fails [OF that] by simp
  from 1 2 build_log [of self w] build_table [of self w] 5 6 7 show ?thesis by blast
qed

theorem last_descriptor_wins_witness:
  "rglob clash (decompiled_path scenario_self) ''*.meta''
     = [] @ [''dec'', ''one'', ''Foo.meta''] # [] @ [''dec'', ''two'', ''Bar.meta''] # []
   \<and> correlate scenario_self clash [''dec'', ''one'', ''Foo.meta''] = Some (guid_a, guid_b)
   \<and> correlate scenario_self clash [''dec'', ''two'', ''Bar.meta''] = Some (guid_a, guid_c)
   \<and> distinct (map fst (guid_mappings scenario_self))
   \<and> map_of (guid_mappings (fst (build_guid_mappings scenario_self clash))) guid_a = Some guid_c"
proof -
  have g: "rglob clash (decompiled_path scenario_self) ''*.meta''
     = [] @ [''dec'', ''one'', ''Foo.meta''] # [] @ [''dec'', ''two'', ''Bar.meta''] # []"
    by code_simp
  have c1: "correlate scenario_self clash [''dec'', ''one'', ''Foo.meta''] = Some (guid_a, guid_b)"
    by code_simp
  have c2: "correlate scenario_self clash [''dec'', ''two'', ''Bar.meta''] = Some (guid_a, guid_c)"
    by code_simp
  have n: "\<forall>d \<in> set []. \<forall>r. correlate scenario_self clash d \<noteq> Some (guid_a, r)"
    by simp
  have d: "distinct (map fst (guid_mappings scenario_self))"
    by code_simp
  from last_descriptor_wins [OF g c1 c2 n d] g c1 c2 d show ?thesis by blast
qed

theorem correlated_pairs_are_recorded_witness:
  "[''dec'', ''Foo.meta''] \<in> set (rglob scenario (decompiled_path scenario_self) ''*.meta'')
   \<and> find_actual_meta scenario_self (stem [''dec'', ''Foo.meta'']) scenario
       = Inr (Some [''act'', ''Foo.meta''])
   \<and> fst (extract_guid_from_meta [''dec'', ''Foo.meta''] scenario) = Some guid_a
   \<and> fst (extract_guid_from_meta [''act'', ''Foo.meta''] scenario) = Some guid_b
   \<and> guid_a \<in> fst ` set (guid_mappings (fst (build_guid_mappings scenario_self scenario)))
   \<and> map_of (guid_mappings (fst (build_guid_mappings scenario_self scenario))) guid_a = Some guid_b"
proof -
  have s: "rglob scenario (decompiled_path scenario_self) ''*.meta'' = [[''dec'', ''Foo.meta'']]"
    by code_simp
  then have m: "[''dec'', ''Foo.meta''] \<in> set (rglob scenario (decompiled_path scenario_self) ''*.meta'')"
    by simp
  have f: "find_actual_meta scenario_self (stem [''dec'', ''Foo.meta'']) scenario
       = Inr (Some [''act'', ''Foo.meta''])"
    by code_simp
  have g: "fst (extract_guid_from_meta [''dec'', ''Foo.meta''] scenario) = Some guid_a"
    by code_simp
  have r: "fst (extract_guid_from_meta [''act'', ''Foo.meta''] scenario) = Some guid_b"
    by code_simp
  have c: "correlate scenario_self scenario [''dec'', ''Foo.meta''] = Some (guid_a, guid_b)"
    by code_simp
  have u: "\<forall>d' \<in> set (rglob scenario (decompiled_path scenario_self) ''*.meta'').
             \<forall>r'. correlate scenario_self scenario d' = Some (guid_a, r') \<longrightarrow> r' = guid_b"
    unfolding s using c by simp
  from correlated_pairs_are_recorded [OF m f g r] u m f g r show ?thesis by blast
qed

theorem every_exception_is_logged_witness:
  "read_text troubled [''dec'', ''Foo.meta''] = None
   \<and> extract_guid_from_meta [''dec'', ''Foo.meta''] troubled
       = (None, add_log (MetaReadError [''dec'', ''Foo.meta'']) troubled)
   \<and> rglob troubled (decompiled_path scenario_self) ''*.meta''
       = [[''dec'', ''**.meta''], [''dec'', ''Foo.meta''], [''dec'', ''Bar.meta'']]
   \<and> find_actual_meta scenario_self (stem [''dec'', ''**.meta'']) troubled = Inl SearchError
   \<and> find_actual_meta scenario_self (stem [''dec'', ''Foo.meta'']) troubled
       = Inr (Some [''act'', ''Foo.meta''])
   \<and> ProcessingError [''dec'', ''**.meta'']
       \<in> set (logged (snd (build_guid_mappings scenario_self troubled)))
   \<and> MetaReadError [''dec'', ''Foo.meta'']
       \<in> set (logged (snd (build_guid_mappings scenario_self troubled)))
   \<and> correlate scenario_self troubled [''dec'', ''**.meta''] = None
   \<and> correlate scenario_self troubled [''dec'', ''Foo.meta''] = None
   \<and> logged (snd (build_guid_mappings scenario_self troubled))
       = [ProcessingError [''dec'', ''**.meta''], MetaReadError [''dec'', ''Foo.meta''],
          Mapped ''Bar'' guid_a guid_c]
   \<and> guid_mappings (fst (build_guid_mappings scenario_self troubled)) = [(guid_a, guid_c)]
   \<and> \<not> fst (replace_guids_in_file scenario_self [''dec'', ''Foo.meta''] troubled)
   \<and> logged (snd (replace_guids_in_file scenario_self [''dec'', ''Foo.meta''] troubled))
       = [UpdateError [''dec'', ''Foo.meta'']]
   \<and> read_text descriptors [''Plain.meta''] = Some ''fileFormatVersion: 2''
   \<and> re_search ''fileFormatVersion: 2'' = None
   \<and> extract_guid_from_meta [''Plain.meta''] descriptors = (None, descriptors)"
proof -
  let ?log = "logged (snd (build_guid_mappings scenario_self troubled))"
  have n: "read_text troubled [''dec'', ''Foo.meta''] = None"
    by code_simp
  have g: "rglob troubled (decompiled_path scenario_self) ''*.meta''
       = [[''dec'', ''**.meta''], [''dec'', ''Foo.meta''], [''dec'', ''Bar.meta'']]"
    by code_simp
  have f1: "find_actual_meta scenario_self (stem [''dec'', ''**.meta'']) troubled = Inl SearchError"
    by code_simp
  have f2: "find_actual_meta scenario_self (stem [''dec'', ''Foo.meta'']) troubled
       = Inr (Some [''act'', ''Foo.meta''])"
    by code_simp
  have l: "?log = [ProcessingError [''dec'', ''**.meta''], MetaReadError [''dec'', ''Foo.meta''],
          Mapped ''Bar'' guid_a guid_c]"
    by code_simp
  have t: "guid_mappings (fst (build_guid_mappings scenario_self troubled)) = [(guid_a, guid_c)]"
    by code_simp
  have e: "logged troubled = []"
    by code_simp
  have r: "read_text descriptors [''Plain.meta''] = Some ''fileFormatVersion: 2''"
    by code_simp
  have s: "re_search ''fileFormatVersion: 2'' = None"
    by code_simp
  note a = every_exception_is_logged [of troubled "[''dec'', ''Foo.meta'']" "[]" scenario_self]
  note b = every_exception_is_logged [of descriptors "[''Plain.meta'']" "''fileFormatVersion: 2''"
      scenario_self]
  have m1: "[''dec'', ''**.meta''] \<in> set (rglob troubled (decompiled_path scenario_self) ''*.meta'')"
    and m2: "[''dec'', ''Foo.meta''] \<in> set (rglob troubled (decompiled_path scenario_self) ''*.meta'')"
    unfolding g by simp_all
  from a n have 1: "extract_guid_from_meta [''dec'', ''Foo.meta''] troubled
       = (None, add_log (MetaReadError [''dec'', ''Foo.meta'']) troubled)" by blast
  from a m1 f1 have 2: "ProcessingError [''dec'', ''**.meta''] \<in> set ?log"
    and 3: "correlate scenario_self troubled [''dec'', ''**.meta''] = None" by blast+
  from a m2 f2 n have 4: "MetaReadError [''dec'', ''Foo.meta''] \<in> set ?log"
    and 5: "correlate scenario_self troubled [''dec'', ''Foo.meta''] = None" by blast+
  from a n have 6: "\<not> fst (replace_guids_in_file scenario_self [''dec'', ''Foo.meta''] troubled)"
    and "logged (snd (replace_guids_in_file scenario_self [''dec'', ''Foo.meta''] troubled))
           = logged troubled @ [UpdateError [''dec'', ''Foo.meta'']]" by blast+
  then have 7: "logged (snd (replace_guids_in_file scenario_self [''dec'', ''Foo.meta''] troubled))
           = [UpdateError [''dec'', ''Foo.meta'']]" by (simp add: e)
  from b r s have 8: "extract_guid_from_meta [''Plain.meta''] descriptors = (None, descriptors)"
    by blast
  from n 1 g f1 f2 2 4 3 5 l t 6 7 r s 8 show ?thesis by blast
qed

section \<open>Substitution in texts whose identifiers are delimited\<close>

lemma lower_hex_is_hex: "is_lower_hex c \<Longrightarrow> is_hex c"
  by (auto simp: is_lower_hex_def is_hex_def Let_def)

lemma is_guid_hex: "is_guid g \<Longrightarrow> list_all is_hex g"
  by (auto simp: is_guid_def list_all_iff lower_hex_is_hex)

lemma is_guid_length: "is_guid g \<Longrightarrow> length g = 32"
  by (simp add: is_guid_def)

lemma is_guid_nonempty: "is_guid g \<Longrightarrow> g \<noteq> []"
  by (auto simp: is_guid_def)

lemma delimited_iff:
  "delimited s \<longleftrightarrow> (\<forall>ws. sublist ws s \<and> list_all is_hex ws \<longrightarrow> length ws \<le> 32)"
proof (induction s)
  case Nil
  show ?case by simp
next
  case (Cons c cs)
  show ?case
  proof
    assume d: "delimited (c # cs)"
    show "\<forall>ws. sublist ws (c # cs) \<and> list_all is_hex ws \<longrightarrow> length ws \<le> 32"
    proof (intro allI impI)
      fix ws assume w: "sublist ws (c # cs) \<and> list_all is_hex ws"
      show "length ws \<le> 32"
      proof (cases "prefix ws (c # cs)")
        case True
        show ?thesis
        proof (rule ccontr)
          assume "\<not> length ws \<le> 32"
          then have l: "33 \<le> length ws" by simp
          from True obtain zs where z: "c # cs = ws @ zs" by (auto simp: prefix_def)
          with l have "take 33 (c # cs) = take 33 ws" by simp
          moreover from w have "list_all is_hex (take 33 ws)"
            by (auto simp: list_all_iff dest: in_set_takeD)
          moreover from z l have "33 \<le> length (c # cs)"
            by (metis length_append le_add1 le_trans)
          ultimately have "long_hex_run (c # cs)" by (simp add: long_hex_run_def)
          with d show False by simp
        qed
      next
        case False
        with w have "sublist ws cs" by (simp add: sublist_Cons_right)
        with d w Cons.IH show ?thesis by simp
      qed
    qed
  next
    assume a: "\<forall>ws. sublist ws (c # cs) \<and> list_all is_hex ws \<longrightarrow> length ws \<le> 32"
    have "\<not> long_hex_run (c # cs)"
    proof
      assume r: "long_hex_run (c # cs)"
      then have "list_all is_hex (take 33 (c # cs))" and "length (take 33 (c # cs)) = 33"
        by (simp_all add: long_hex_run_def)
      moreover have "sublist (take 33 (c # cs)) (c # cs)" by (rule sublist_take)
      ultimately show False using a by fastforce
    qed
    moreover have "delimited cs"
      unfolding Cons.IH using a by (auto simp: sublist_Cons_right)
    ultimately show "delimited (c # cs)" by simp
  qed
qed

lemma delimited_sublist: "delimited s \<Longrightarrow> sublist t s \<Longrightarrow> delimited t"
  unfolding delimited_iff by (meson sublist_order.order_trans)

lemma delimited_hex_bound:
  "delimited s \<Longrightarrow> sublist ws s \<Longrightarrow> list_all is_hex ws \<Longrightarrow> length ws \<le> 32"
  unfolding delimited_iff by blast

lemma str_replace_append:
  assumes "old \<noteq> []"
    and "\<And>u v. u \<noteq> [] \<Longrightarrow> v \<noteq> [] \<Longrightarrow> old = u @ v \<Longrightarrow> suffix u a \<Longrightarrow> prefix v b \<Longrightarrow> False"
  shows "str_replace (a @ b) old new = str_replace a old new @ str_replace b old new"
  using assms
proof (induction a old new rule: str_replace.induct)
  case (1 old new)
  then show ?case by simp
next
  case (2 c cs old new)
  note ne = \<open>old \<noteq> []\<close>
  note st = "2.prems"(2)
  show ?case
  proof (cases "prefix old (c # cs)")
    case True
    then have pa: "prefix old (c # cs @ b)"
      by (metis append_Cons prefix_prefix)
    from True have "length old \<le> Suc (length cs)"
      by (auto dest: prefix_length_le)
    then have dr: "drop (length old - 1) (cs @ b) = drop (length old - 1) cs @ b"
      by simp
    have "str_replace (drop (length old - 1) cs @ b) old new
            = str_replace (drop (length old - 1) cs) old new @ str_replace b old new"
    proof (rule "2.IH"(2) [OF ne True ne])
      fix u v assume "u \<noteq> []" "v \<noteq> []" "old = u @ v"
        "suffix u (drop (length old - 1) cs)" "prefix v b"
      moreover from this have "suffix u (c # cs)"
        by (meson suffix_ConsI suffix_drop suffix_order.order_trans)
      ultimately show False using st by blast
    qed
    with True pa ne dr show ?thesis by simp
  next
    case False
    show ?thesis
    proof (cases "prefix old (c # cs @ b)")
      case True
      then have "prefix old ((c # cs) @ b)" by simp
      with False obtain us where us: "old = (c # cs) @ us" "prefix us b"
        unfolding prefix_append by blast
      with False have "us \<noteq> []" by auto
      with us st [of "c # cs" us] show ?thesis by simp
    next
      case nb: False
      have "str_replace (cs @ b) old new = str_replace cs old new @ str_replace b old new"
      proof (rule "2.IH"(3) [OF ne False ne])
        fix u v assume "u \<noteq> []" "v \<noteq> []" "old = u @ v" "suffix u cs" "prefix v b"
        moreover from this have "suffix u (c # cs)" by (simp add: suffix_ConsI)
        ultimately show False using st by blast
      qed
      with False nb ne show ?thesis by simp
    qed
  qed
qed

lemma str_replace_length:
  "old \<noteq> [] \<Longrightarrow> length new = length old \<Longrightarrow> length (str_replace s old new) = length s"
proof (induction s old new rule: str_replace.induct)
  case (1 old new)
  then show ?case by simp
next
  case (2 c cs old new)
  show ?case
  proof (cases "prefix old (c # cs)")
    case True
    then have "length old \<le> Suc (length cs)" by (auto dest: prefix_length_le)
    moreover from "2.prems" obtain n where "length old = Suc n" by (cases old) auto
    ultimately show ?thesis using "2.IH"(2) "2.prems" True by simp
  next
    case False
    then show ?thesis using "2.IH"(3) "2.prems" by simp
  qed
qed

lemma map_hex_all: "list_all is_hex xs \<Longrightarrow> map is_hex xs = replicate (length xs) True"
  by (induction xs) simp_all

lemma str_replace_mask:
  assumes "old \<noteq> []" "length new = length old" "list_all is_hex old" "list_all is_hex new"
  shows "map is_hex (str_replace s old new) = map is_hex s"
  using assms
proof (induction s old new rule: str_replace.induct)
  case (1 old new)
  then show ?case by simp
next
  case (2 c cs old new)
  show ?case
  proof (cases "prefix old (c # cs)")
    case True
    then obtain zs where z: "c # cs = old @ zs" by (auto simp: prefix_def)
    from "2.prems"(1) have "0 < length old" by simp
    then have "drop (length old - 1) cs = drop (length old) (c # cs)"
      by (cases "length old") simp_all
    with z have d: "drop (length old - 1) cs = zs" by simp
    have "map is_hex (str_replace (c # cs) old new)
            = map is_hex new @ map is_hex (str_replace zs old new)"
      using True "2.prems"(1) d by simp
    also have "\<dots> = map is_hex old @ map is_hex zs"
      using "2.IH"(2) [OF "2.prems"(1) True "2.prems"] "2.prems" d
      by (simp add: map_hex_all)
    also have "\<dots> = map is_hex (c # cs)" unfolding z by simp
    finally show ?thesis .
  next
    case False
    then show ?thesis using "2.IH"(3) "2.prems" by simp
  qed
qed

lemma long_hex_run_mask:
  "map is_hex s = map is_hex t \<Longrightarrow> long_hex_run s = long_hex_run t"
proof -
  assume m: "map is_hex s = map is_hex t"
  then have l: "length s = length t" by (rule map_eq_imp_length_eq)
  have "list_all is_hex (take 33 x) \<longleftrightarrow> list_all (\<lambda>b. b) (take 33 (map is_hex x))" for x
    by (simp add: list_all_iff take_map)
  with m l show ?thesis by (simp add: long_hex_run_def)
qed

lemma delimited_mask:
  "map is_hex s = map is_hex t \<Longrightarrow> delimited s = delimited t"
proof (induction s arbitrary: t)
  case Nil
  then show ?case by simp
next
  case (Cons c cs)
  then obtain c' cs' where t: "t = c' # cs'" and m: "map is_hex cs = map is_hex cs'"
    by (cases t) auto
  from Cons.prems have "long_hex_run (c # cs) = long_hex_run t" by (rule long_hex_run_mask)
  with Cons.IH [OF m] t show ?case by simp
qed

lemma str_replace_delimited:
  assumes "is_guid old" "is_guid new" "delimited s"
  shows "delimited (str_replace s old new)"
proof -
  have "map is_hex (str_replace s old new) = map is_hex s"
    using assms(1,2)
    by (intro str_replace_mask) (simp_all add: is_guid_hex is_guid_length is_guid_nonempty)
  from delimited_mask [OF this] assms(3) show ?thesis by simp
qed

lemma str_replace_self: "old \<noteq> [] \<Longrightarrow> str_replace old old new = new"
  by (cases old) simp_all

lemma str_replace_word:
  assumes "is_guid old" "length k = 32"
  shows "str_replace k old new = (if k = old then new else k)"
proof (cases "k = old")
  case True
  with assms show ?thesis by (simp add: str_replace_self is_guid_nonempty)
next
  case False
  have "\<not> sublist old k"
    using sublist_same_length [of old k] assms False by (auto simp: is_guid_length)
  with False show ?thesis by (simp add: str_replace_absent)
qed

lemma str_replace_around:
  assumes o: "is_guid old" and k: "length k = 32" "list_all is_hex k"
    and d: "delimited (pre @ k @ post)"
  shows "str_replace (pre @ k @ post) old new
           = str_replace pre old new @ (if k = old then new else k) @ str_replace post old new"
proof -
  have ne: "old \<noteq> []" using o by (rule is_guid_nonempty)
  have oh: "list_all is_hex old" using o by (rule is_guid_hex)
  have 1: "str_replace (pre @ k @ post) old new
             = str_replace pre old new @ str_replace (k @ post) old new"
  proof (rule str_replace_append [OF ne])
    fix u v assume uv: "u \<noteq> []" "v \<noteq> []" "old = u @ v" "suffix u pre" "prefix v (k @ post)"
    then obtain p0 where "pre = p0 @ u" by (auto simp: suffix_def)
    then have "sublist (u @ k) (pre @ k @ post)"
      unfolding sublist_def by (intro exI [of _ p0] exI [of _ post]) simp
    moreover have "list_all is_hex (u @ k)" using oh uv(3) k by simp
    ultimately have "length (u @ k) \<le> 32" using d by (rule delimited_hex_bound [rotated])
    with k uv(1) show False by simp
  qed
  have 2: "str_replace (k @ post) old new = str_replace k old new @ str_replace post old new"
  proof (rule str_replace_append [OF ne])
    fix u v assume uv: "u \<noteq> []" "v \<noteq> []" "old = u @ v" "suffix u k" "prefix v post"
    then obtain p1 where "post = v @ p1" by (auto simp: prefix_def)
    then have "sublist (k @ v) (pre @ k @ post)"
      unfolding sublist_def by (intro exI [of _ pre] exI [of _ p1]) simp
    moreover have "list_all is_hex (k @ v)" using oh uv(3) k by simp
    ultimately have "length (k @ v) \<le> 32" using d by (rule delimited_hex_bound [rotated])
    with k uv(2) show False by simp
  qed
  from 1 2 str_replace_word [OF o k(1)] show ?thesis by simp
qed

lemma apply_mappings_Cons:
  "apply_mappings ((old, new) # m) s = apply_mappings m (str_replace s old new)"
  by (simp add: apply_mappings_def)

lemma chain_Cons: "chain ((old, new) # m) h = chain m (if h = old then new else h)"
  by (simp add: chain_def)

lemma apply_mappings_length:
  "\<forall>(old, new) \<in> set m. is_guid old \<and> is_guid new \<Longrightarrow> length (apply_mappings m s) = length s"
proof (induction m arbitrary: s)
  case Nil
  show ?case by (simp add: apply_mappings_def)
next
  case (Cons a m)
  obtain old new where a: "a = (old, new)" by (cases a)
  with Cons.prems have "length (str_replace s old new) = length s"
    by (intro str_replace_length) (simp_all add: is_guid_length is_guid_nonempty)
  with Cons a show ?case by (simp add: apply_mappings_Cons)
qed

lemma apply_mappings_mask:
  "\<forall>(old, new) \<in> set m. is_guid old \<and> is_guid new \<Longrightarrow>
   map is_hex (apply_mappings m s) = map is_hex s"
proof (induction m arbitrary: s)
  case Nil
  show ?case by (simp add: apply_mappings_def)
next
  case (Cons a m)
  obtain old new where a: "a = (old, new)" by (cases a)
  with Cons.prems have "map is_hex (str_replace s old new) = map is_hex s"
    by (intro str_replace_mask) (simp_all add: is_guid_length is_guid_nonempty is_guid_hex)
  with Cons a show ?case by (simp add: apply_mappings_Cons)
qed

lemma apply_mappings_delimited:
  "\<forall>(old, new) \<in> set m. is_guid old \<and> is_guid new \<Longrightarrow> delimited s \<Longrightarrow>
   delimited (apply_mappings m s)"
  using delimited_mask [OF apply_mappings_mask, of m s] by simp

lemma apply_mappings_around:
  assumes "\<forall>(old, new) \<in> set m. is_guid old \<and> is_guid new"
    and "length h = 32" "list_all is_hex h" "delimited (pre @ h @ post)"
  shows "\<exists>pre' post'. apply_mappings m (pre @ h @ post) = pre' @ chain m h @ post'
           \<and> length pre' = length pre \<and> length post' = length post"
  using assms
proof (induction m arbitrary: pre h post)
  case Nil
  show ?case
    by (intro exI [of _ pre] exI [of _ post]) (simp add: apply_mappings_def chain_def)
next
  case (Cons a m)
  obtain old new where a: "a = (old, new)" by (cases a)
  with Cons.prems(1) have g: "is_guid old" "is_guid new" by simp_all
  let ?h = "if h = old then new else h"
  let ?pre = "str_replace pre old new" and ?post = "str_replace post old new"
  have e: "str_replace (pre @ h @ post) old new = ?pre @ ?h @ ?post"
    using g(1) Cons.prems(2-4) by (rule str_replace_around)
  have l: "length ?pre = length pre" "length ?post = length post"
    using g by (simp_all add: str_replace_length is_guid_length is_guid_nonempty)
  have h: "length ?h = 32" "list_all is_hex ?h"
    using g(2) Cons.prems(2,3) by (simp_all add: is_guid_length is_guid_hex)
  have d: "delimited (?pre @ ?h @ ?post)"
    unfolding e [symmetric] using g Cons.prems(4) by (rule str_replace_delimited)
  from Cons.prems(1) have "\<forall>(old, new) \<in> set m. is_guid old \<and> is_guid new" by simp
  from Cons.IH [OF this h d] l a e show ?case
    by (simp add: apply_mappings_Cons chain_Cons)
qed

lemma chain_lookup:
  "fst ` set m \<inter> snd ` set m = {} \<Longrightarrow>
   chain m h = (case map_of m h of Some new \<Rightarrow> new | None \<Rightarrow> h)"
proof (induction m arbitrary: h)
  case Nil
  show ?case by (simp add: chain_def)
next
  case (Cons a m)
  obtain old new where a: "a = (old, new)" by (cases a)
  from Cons.prems have sub: "fst ` set m \<inter> snd ` set m = {}" by auto
  show ?case
  proof (cases "h = old")
    case True
    from Cons.prems a have "new \<notin> fst ` set m" by auto
    then have "map_of m new = None" by (simp add: map_of_eq_None_iff)
    with Cons.IH [OF sub, of new] True a show ?thesis by (simp add: chain_Cons)
  next
    case False
    with Cons.IH [OF sub, of h] a show ?thesis by (simp add: chain_Cons)
  qed
qed

lemma chain_not_key:
  assumes "fst ` set m \<inter> snd ` set m = {}"
  shows "chain m h \<notin> fst ` set m"
proof (cases "map_of m h")
  case None
  then have "h \<notin> fst ` set m" by (simp add: map_of_eq_None_iff)
  with None show ?thesis by (simp add: chain_lookup [OF assms])
next
  case (Some new)
  then have "new \<in> snd ` set m" by (force dest: map_of_SomeD)
  with assms Some show ?thesis by (auto simp: chain_lookup [OF assms])
qed

lemma list_all_mask: "map P xs = map P ys \<Longrightarrow> list_all P xs = list_all P ys"
proof -
  assume m: "map P xs = map P ys"
  have "list_all P zs = list_all (\<lambda>b. b) (map P zs)" for zs
    by (simp add: list_all_iff)
  with m show ?thesis by simp
qed

lemma window_of_mask:
  assumes "map is_hex r = map is_hex s" and "r = pre' @ k @ post'" and "list_all is_hex k"
  shows "\<exists>pre h post. s = pre @ h @ post \<and> length pre = length pre' \<and> length h = length k
           \<and> list_all is_hex h"
proof -
  let ?pre = "take (length pre') s"
  let ?h = "take (length k) (drop (length pre') s)"
  let ?post = "drop (length k) (drop (length pre') s)"
  from assms(1) have l: "length s = length r" by (metis length_map)
  have s: "s = ?pre @ ?h @ ?post" by (simp only: append_take_drop_id)
  have "map is_hex ?h = take (length k) (drop (length pre') (map is_hex s))"
    by (simp add: take_map drop_map)
  also have "\<dots> = map is_hex k"
    unfolding assms(1) [symmetric] assms(2) by simp
  finally have "map is_hex ?h = map is_hex k" .
  then have "list_all is_hex ?h" and "length ?h = length k"
    using assms(3) list_all_mask [of is_hex ?h k] map_eq_imp_length_eq [of is_hex ?h is_hex k]
    by blast+
  moreover have "length ?pre = length pre'" using l assms(2) by simp
  ultimately show ?thesis using s by blast
qed

lemma no_key_remains:
  assumes g: "\<forall>(old, new) \<in> set m. is_guid old \<and> is_guid new"
    and x: "fst ` set m \<inter> snd ` set m = {}"
    and d: "delimited s"
    and k: "k \<in> fst ` set m"
  shows "\<not> sublist k (apply_mappings m s)"
proof
  assume "sublist k (apply_mappings m s)"
  then obtain pre' post' where r: "apply_mappings m s = pre' @ k @ post'"
    by (auto simp: sublist_def)
  from g k have gk: "is_guid k" by auto
  from window_of_mask [OF apply_mappings_mask [OF g] r is_guid_hex [OF gk]]
  obtain pre h post where s: "s = pre @ h @ post" and l: "length pre = length pre'"
    and h: "length h = length k" "list_all is_hex h" by blast
  from h gk have h32: "length h = 32" by (simp add: is_guid_length)
  from apply_mappings_around [OF g h32 h(2) d [unfolded s]]
  obtain p2 q2 where e: "apply_mappings m s = p2 @ chain m h @ q2" and l2: "length p2 = length pre"
    unfolding s by blast
  from e r l l2 have "chain m h @ q2 = k @ post'" by simp
  moreover have "length (chain m h) = length k"
  proof -
    have "chain m h = h \<or> chain m h \<in> snd ` set m"
    proof (cases "map_of m h")
      case None
      then show ?thesis by (simp add: chain_lookup [OF x])
    next
      case (Some new)
      then have "(h, new) \<in> set m" by (rule map_of_SomeD)
      then have "new \<in> snd ` set m" by force
      with Some show ?thesis by (simp add: chain_lookup [OF x])
    qed
    moreover have "length v = 32" if "v \<in> snd ` set m" for v
      using that g by (auto simp: is_guid_length)
    ultimately show ?thesis using h32 gk by (auto simp: is_guid_length)
  qed
  ultimately have "chain m h = k" by simp
  with chain_not_key [OF x, of h] k show False by simp
qed

lemma stable_iff:
  "stable self w p \<longleftrightarrow>
     (\<forall>s. read_text w p = Some s \<longrightarrow>
        (\<forall>t. prefix t (apply_mappings (guid_mappings self) s)
               \<longrightarrow> apply_mappings (guid_mappings self) t = t))"
  by (auto simp: stable_def list_all_iff in_set_prefixes split: option.splits)

lemma settled_iff:
  "settled self w p \<longleftrightarrow>
     (\<forall>s. read_text w p = Some s \<longrightarrow>
        apply_mappings (guid_mappings self) s = s
        \<or> (\<not> writable (files w p) \<and> broken_write (files w p) = None))"
  by (simp add: settled_def split: option.splits)

lemma stable_cong: "files w' = files w \<Longrightarrow> stable self w' p = stable self w p"
  by (simp add: stable_def read_text_def cong: option.case_cong)

lemma settles_at:
  assumes "read_text w' p = Some c"
    and "apply_mappings (guid_mappings self) c = c"
    and "\<And>t. prefix t c \<Longrightarrow> apply_mappings (guid_mappings self) t = t"
  shows "settled self w' p \<and> stable self w' p"
proof
  show "settled self w' p"
    unfolding settled_iff using assms(1,2) by simp
  show "stable self w' p"
    unfolding stable_iff
  proof (intro allI impI)
    fix s t
    assume "read_text w' p = Some s" and t: "prefix t (apply_mappings (guid_mappings self) s)"
    with assms(1) have "s = c" by simp
    with t assms(2) have "prefix t c" by simp
    then show "apply_mappings (guid_mappings self) t = t" by (rule assms(3))
  qed
qed

lemma replace_settles:
  assumes "stable self w p"
  shows "settled self (snd (replace_guids_in_file self p w)) p"
    and "stable self (snd (replace_guids_in_file self p w)) p"
proof -
  let ?m = "guid_mappings self"
  let ?w = "snd (replace_guids_in_file self p w)"
  have "settled self ?w p \<and> stable self ?w p"
  proof (cases "read_text w p")
    case None
    then have e: "?w = add_log (UpdateError p) w" by (simp add: replace_unread)
    have "settled self ?w p" unfolding e settled_iff using None by simp
    moreover have "stable self ?w p" unfolding e using assms stable_cong [of "add_log (UpdateError p) w" w] by simp
    ultimately show ?thesis ..
  next
    case (Some s)
    let ?s = "apply_mappings ?m s"
    have P: "apply_mappings ?m t = t" if "prefix t ?s" for t
      using assms Some that unfolding stable_iff by blast
    have fx: "apply_mappings ?m ?s = ?s" by (rule P) simp
    show ?thesis
    proof (cases "?s = s")
      case True
      from replace_unchanged [OF Some True] have e: "?w = w" by simp
      have "settled self w p" unfolding settled_iff using Some True by simp
      with assms show ?thesis unfolding e by simp
    next
      case ch: False
      show ?thesis
      proof (cases "writable (files w p)")
        case True
        from replace_written [OF Some ch True]
        have "read_text ?w p = Some ?s" by simp
        from this fx P show ?thesis by (rule settles_at)
      next
        case nw: False
        show ?thesis
        proof (cases "broken_write (files w p)")
          case None
          from replace_unopened [OF Some ch nw None]
          have e: "?w = add_log (UpdateError p) w" by simp
          have "settled self ?w p" unfolding e settled_iff using nw None by simp
          moreover have "stable self ?w p"
            unfolding e using assms stable_cong [of "add_log (UpdateError p) w" w] by simp
          ultimately show ?thesis ..
        next
          case (Some k)
          from replace_cut [OF \<open>read_text w p = Some s\<close> ch nw Some]
          have r: "read_text ?w p = Some (take k ?s)" by simp
          have c: "apply_mappings ?m (take k ?s) = take k ?s"
            by (rule P) (rule take_is_prefix)
          have Q: "apply_mappings ?m t = t" if "prefix t (take k ?s)" for t
          proof (rule P)
            from that take_is_prefix [of k ?s] show "prefix t ?s"
              by (rule prefix_order.trans)
          qed
          from r c Q show ?thesis by (rule settles_at)
        qed
      qed
    qed
  qed
  then show "settled self ?w p" and "stable self ?w p" by simp_all
qed

lemma replace_keeps:
  assumes "stable self w p"
  shows "settled self w q \<Longrightarrow> settled self (snd (replace_guids_in_file self p w)) q"
    and "stable self w q \<Longrightarrow> stable self (snd (replace_guids_in_file self p w)) q"
proof -
  have e: "q \<noteq> p \<Longrightarrow> settled self (snd (replace_guids_in_file self p w)) q = settled self w q"
    "q \<noteq> p \<Longrightarrow> stable self (snd (replace_guids_in_file self p w)) q = stable self w q"
    by (simp_all add: settled_def stable_def read_text_def replace_elsewhere
          cong: option.case_cong)
  show "settled self w q \<Longrightarrow> settled self (snd (replace_guids_in_file self p w)) q"
    using e(1) replace_settles(1) [OF assms] by (cases "q = p") simp_all
  show "stable self w q \<Longrightarrow> stable self (snd (replace_guids_in_file self p w)) q"
    using e(2) replace_settles(2) [OF assms] by (cases "q = p") simp_all
qed

lemma loop_settles:
  assumes "\<forall>p \<in> set ts \<union> B. stable self w p" and "\<forall>p \<in> B. settled self w p"
  shows "\<forall>p \<in> set ts \<union> B. settled self (snd (snd (correct_loop self ts (n, m, w)))) p"
  using assms
proof (induction ts arbitrary: n m w B)
  case Nil
  then show ?case by simp
next
  case (Cons q ts)
  let ?w = "snd (replace_guids_in_file self q w)"
  from Cons.prems(1) have sq: "stable self w q" by simp
  have 1: "\<forall>p \<in> set ts \<union> insert q B. stable self ?w p"
    using Cons.prems(1) replace_keeps(2) [OF sq] by auto
  have 2: "\<forall>p \<in> insert q B. settled self ?w p"
    using Cons.prems(2) replace_keeps(1) [OF sq] replace_settles(1) [OF sq] by auto
  from Cons.IH [OF 1 2] show ?case by (simp add: Let_def)
qed

lemma replace_noop:
  assumes "settled self w p"
  shows "\<not> fst (replace_guids_in_file self p w)"
    and "files (snd (replace_guids_in_file self p w)) = files w"
proof -
  have "\<not> fst (replace_guids_in_file self p w)
      \<and> files (snd (replace_guids_in_file self p w)) = files w"
  proof (cases "read_text w p")
    case None
    then show ?thesis by (simp add: replace_unread)
  next
    case (Some s)
    show ?thesis
    proof (cases "apply_mappings (guid_mappings self) s = s")
      case True
      from replace_unchanged [OF Some True] show ?thesis by simp
    next
      case False
      with assms Some have "\<not> writable (files w p)" "broken_write (files w p) = None"
        by (simp_all add: settled_iff)
      from replace_unopened [OF Some False this] show ?thesis by simp
    qed
  qed
  then show "\<not> fst (replace_guids_in_file self p w)"
    and "files (snd (replace_guids_in_file self p w)) = files w" by simp_all
qed

lemma settled_cong: "files w' = files w \<Longrightarrow> settled self w' p = settled self w p"
  by (simp add: settled_def read_text_def cong: option.case_cong)

lemma loop_noop:
  assumes "\<forall>p \<in> set ts. settled self w p"
  shows "fst (snd (correct_loop self ts (n, m, w))) = m
       \<and> files (snd (snd (correct_loop self ts (n, m, w)))) = files w"
  using assms
proof (induction ts arbitrary: n m w)
  case Nil
  show ?case by simp
next
  case (Cons q ts)
  let ?w = "snd (replace_guids_in_file self q w)"
  from Cons.prems have sq: "settled self w q" by simp
  note no = replace_noop [OF sq]
  have "\<forall>p \<in> set ts. settled self ?w p"
    using Cons.prems settled_cong [OF no(2)] by simp
  from Cons.IH [OF this] no show ?case by (simp add: Let_def)
qed

lemma str_replace_by_itself: "new = old \<Longrightarrow> str_replace s old new = s"
proof (induction s old new rule: str_replace.induct)
  case (1 old new)
  then show ?case by simp
next
  case (2 c cs old new)
  show ?case
  proof (cases "old = []")
    case True
    with 2 show ?thesis by simp
  next
    case ne: False
    show ?thesis
    proof (cases "prefix old (c # cs)")
      case True
      then obtain zs where z: "c # cs = old @ zs" by (auto simp: prefix_def)
      from ne obtain n where "length old = Suc n" by (cases old) auto
      then have "drop (length old - 1) cs = drop (length old) (c # cs)" by simp
      with z have dz: "drop (length old - 1) cs = zs" by simp
      from "2.IH"(2) [OF ne True "2.prems"] dz have "str_replace zs old new = zs" by simp
      with ne True dz "2.prems" have "str_replace (c # cs) old new = old @ zs" by simp
      with z show ?thesis by simp
    next
      case False
      with "2.IH"(3) [OF ne False "2.prems"] ne show ?thesis by simp
    qed
  qed
qed

lemma str_replace_same: "str_replace s a a = s"
  by (rule str_replace_by_itself) simp

lemma apply_mappings_proper:
  "apply_mappings m s = apply_mappings (filter (\<lambda>(old, new). old \<noteq> new) m) s"
  by (induction m arbitrary: s) (auto simp: apply_mappings_def str_replace_same)

lemma apply_mappings_settles:
  assumes g: "\<forall>(old, new) \<in> set m. is_guid old \<and> is_guid new"
    and x: "\<forall>(old, new) \<in> set m. \<forall>(old', new') \<in> set m. old = new' \<longrightarrow> (old', new') = (old, new)"
    and d: "delimited s"
    and t: "prefix t (apply_mappings m s)"
  shows "apply_mappings m t = t"
proof -
  let ?m = "filter (\<lambda>(old, new). old \<noteq> new) m"
  have g': "\<forall>(old, new) \<in> set ?m. is_guid old \<and> is_guid new" using g by auto
  have x': "fst ` set ?m \<inter> snd ` set ?m = {}"
  proof (rule ccontr)
    assume "fst ` set ?m \<inter> snd ` set ?m \<noteq> {}"
    then obtain k where "k \<in> fst ` set ?m" "k \<in> snd ` set ?m" by blast
    then obtain new old' where a: "(k, new) \<in> set ?m" "(old', k) \<in> set ?m"
      by (metis (no_types, lifting) fst_conv imageE prod.collapse snd_conv)
    then have b: "(k, new) \<in> set m" "(old', k) \<in> set m" and c: "old' \<noteq> k" by simp_all
    from x b have "(old', k) = (k, new)" by blast
    with c show False by simp
  qed
  from t have "sublist t (apply_mappings ?m s)"
    by (simp add: apply_mappings_proper [symmetric])
  then have "\<forall>k \<in> fst ` set ?m. \<not> sublist k t"
    using no_key_remains [OF g' x' d] by (meson sublist_order.order_trans)
  then have "apply_mappings ?m t = t"
    by (rule apply_mappings_absent)
  then show ?thesis by (simp add: apply_mappings_proper [symmetric])
qed

text \<open>
  Claim C3, amended. Let the keys and values of the table be identifiers, no key being the
  value of another pair, and let the content of every target that can be read be delimited.
  Then a second run of the substitution loop over the same targets, with the same table,
  in the world the first run left, reports no modified file and leaves every file as it was.
\<close>

theorem second_run_changes_nothing:
  assumes "\<forall>(old, new) \<in> set (guid_mappings self). is_guid old \<and> is_guid new"
    and "\<forall>(old, new) \<in> set (guid_mappings self). \<forall>(old', new') \<in> set (guid_mappings self).
           old = new' \<longrightarrow> (old', new') = (old, new)"
    and "\<forall>p \<in> set targets. \<forall>s. read_text w p = Some s \<longrightarrow> delimited s"
    and "correct_loop self targets (0, 0, w) = (n1, m1, w1)"
    and "correct_loop self targets (0, 0, w1) = (n2, m2, w2)"
  shows "m2 = 0 \<and> files w2 = files w1"
proof -
  have "stable self w p" if "p \<in> set targets" for p
    unfolding stable_iff
  proof (intro allI impI)
    fix s t
    assume "read_text w p = Some s" and t: "prefix t (apply_mappings (guid_mappings self) s)"
    with assms(3) that have "delimited s" by blast
    from apply_mappings_settles [OF assms(1,2) this t]
    show "apply_mappings (guid_mappings self) t = t" .
  qed
  then have "\<forall>p \<in> set targets \<union> {}. stable self w p" by simp
  from loop_settles [OF this, of 0 0] assms(4)
  have "\<forall>p \<in> set targets. settled self w1 p" by simp
  from loop_noop [OF this, of 0 0] assms(5) show ?thesis by simp
qed

text \<open>
  Claim C1, amended. Let the keys and values of the table be identifiers (32 characters among
  the digits and a to f), no key being a value. Let the target be readable and writable, its
  content delimited and holding an occurrence of some key. Then \<open>replace_guids_in_file\<close>
  returns True, the file holds the new content after one more write, the update is logged,
  no key occurs in the new content, and wherever a key stood in the old content, the value
  the table gives for it stands at the same position in the new one.
\<close>

theorem every_occurrence_replaced:
  assumes r: "read_text w p = Some s" and wr: "writable (files w p)"
    and g: "\<forall>(old, new) \<in> set (guid_mappings self). is_guid old \<and> is_guid new"
    and x: "fst ` set (guid_mappings self) \<inter> snd ` set (guid_mappings self) = {}"
    and d: "delimited s"
    and o: "\<exists>old \<in> fst ` set (guid_mappings self). sublist old s"
  shows "fst (replace_guids_in_file self p w)
       \<and> read_text (snd (replace_guids_in_file self p w)) p
           = Some (apply_mappings (guid_mappings self) s)
       \<and> writes (files (snd (replace_guids_in_file self p w)) p) = Suc (writes (files w p))
       \<and> logged (snd (replace_guids_in_file self p w)) = logged w @ [Updated p]
       \<and> (\<forall>old \<in> fst ` set (guid_mappings self).
             \<not> sublist old (apply_mappings (guid_mappings self) s))
       \<and> (\<forall>pre old new post.
             s = pre @ old @ post \<and> map_of (guid_mappings self) old = Some new \<longrightarrow>
             (\<exists>pre' post'. apply_mappings (guid_mappings self) s = pre' @ new @ post'
                 \<and> length pre' = length pre \<and> length post' = length post))"
proof -
  let ?m = "guid_mappings self"
  have none: "\<forall>old \<in> fst ` set ?m. \<not> sublist old (apply_mappings ?m s)"
    using no_key_remains [OF g x d] by blast
  with o have ch: "apply_mappings ?m s \<noteq> s" by auto
  have pos: "\<exists>pre' post'. apply_mappings ?m s = pre' @ new @ post'
                 \<and> length pre' = length pre \<and> length post' = length post"
    if "s = pre @ old @ post \<and> map_of ?m old = Some new" for pre old new post
  proof -
    from that have s: "s = pre @ old @ post" and m: "map_of ?m old = Some new" by simp_all
    from m have "(old, new) \<in> set ?m" by (rule map_of_SomeD)
    with g have "is_guid old" by auto
    then have "length old = 32" "list_all is_hex old"
      by (simp_all add: is_guid_length is_guid_hex)
    from apply_mappings_around [OF g this d [unfolded s]] m show ?thesis
      unfolding s by (simp add: chain_lookup [OF x])
  qed
  have "replace_guids_in_file self p w
          = (True, add_log (Updated p) (put_text w p (apply_mappings ?m s)))"
    using r ch wr by (rule replace_written)
  then have "fst (replace_guids_in_file self p w)"
    and "read_text (snd (replace_guids_in_file self p w)) p = Some (apply_mappings ?m s)"
    and "writes (files (snd (replace_guids_in_file self p w)) p) = Suc (writes (files w p))"
    and "logged (snd (replace_guids_in_file self p w)) = logged w @ [Updated p]"
    by simp_all
  with none pos show ?thesis by blast
qed

text \<open>
  Claim C1 as stated fails in two ways. With the table of \<open>chained\<close>, the new identifier put
  into the scene is itself a key, already applied, and remains. With the table of \<open>packed\<close>,
  the replacement of the single key in the asset makes a new occurrence of that key out of
  the digit before it and the new identifier.
\<close>

theorem old_identifier_remains:
  "guid_mappings (fst (build_guid_mappings scenario_self chained))
     = [(guid_b, guid_c), (guid_a, guid_b)]
   \<and> read_text chained [''proj'', ''Scene.unity''] = Some (''m_Script: {guid: '' @ guid_a @ ''}'')
   \<and> sublist guid_a (''m_Script: {guid: '' @ guid_a @ ''}'')
   \<and> fst (replace_guids_in_file (fst (build_guid_mappings scenario_self chained))
            [''proj'', ''Scene.unity''] chained)
   \<and> read_text (snd (replace_guids_in_file (fst (build_guid_mappings scenario_self chained))
            [''proj'', ''Scene.unity''] chained)) [''proj'', ''Scene.unity'']
       = Some (''m_Script: {guid: '' @ guid_b @ ''}'')
   \<and> sublist guid_b (''m_Script: {guid: '' @ guid_b @ ''}'')
   \<and> guid_mappings (fst (build_guid_mappings scenario_self packed)) = [(guid_ab, guid_ba)]
   \<and> read_text packed [''proj'', ''Data.asset''] = Some (''data: a'' @ guid_ab)
   \<and> sublist guid_ab (''data: a'' @ guid_ab)
   \<and> fst (replace_guids_in_file (fst (build_guid_mappings scenario_self packed))
            [''proj'', ''Data.asset''] packed)
   \<and> read_text (snd (replace_guids_in_file (fst (build_guid_mappings scenario_self packed))
            [''proj'', ''Data.asset''] packed)) [''proj'', ''Data.asset'']
       = Some (''data: '' @ guid_ab @ ''a'')
   \<and> sublist guid_ab (''data: '' @ guid_ab @ ''a'')"
  by code_simp

text \<open>
  Claim C3 as stated fails on the asset of \<open>packed\<close>, with a table of a single pair: the first
  run makes a new occurrence of the key, and the second run replaces it and reports the file
  as modified again.
\<close>

theorem second_run_modifies:
  "guid_mappings (fst (build_guid_mappings scenario_self packed)) = [(guid_ab, guid_ba)]
   \<and> fst (snd (correct_loop (fst (build_guid_mappings scenario_self packed))
        [[''proj'', ''Data.asset'']] (0, 0, packed))) = 1
   \<and> read_text (snd (snd (correct_loop (fst (build_guid_mappings scenario_self packed))
        [[''proj'', ''Data.asset'']] (0, 0, packed)))) [''proj'', ''Data.asset'']
       = Some (''data: '' @ guid_ab @ ''a'')
   \<and> fst (snd (correct_loop (fst (build_guid_mappings scenario_self packed))
        [[''proj'', ''Data.asset'']]
        (0, 0, snd (snd (correct_loop (fst (build_guid_mappings scenario_self packed))
                           [[''proj'', ''Data.asset'']] (0, 0, packed)))))) = 1
   \<and> read_text (snd (snd (correct_loop (fst (build_guid_mappings scenario_self packed))
        [[''proj'', ''Data.asset'']]
        (0, 0, snd (snd (correct_loop (fst (build_guid_mappings scenario_self packed))
                           [[''proj'', ''Data.asset'']] (0, 0, packed)))))))
        [''proj'', ''Data.asset'']
       = Some (''data: '' @ guid_ba @ ''a'')"
  by code_simp

theorem every_occurrence_replaced_witness:
  "read_text scenario [''proj'', ''Scene.unity'']
     = Some (''m_Script: {fileID: 11500000, guid: '' @ guid_a @ '', type: 3}'')
   \<and> writable (files scenario [''proj'', ''Scene.unity''])
   \<and> guid_mappings built_self = [(guid_a, guid_b)]
   \<and> is_guid guid_a \<and> is_guid guid_b \<and> guid_a \<noteq> guid_b
   \<and> delimited (''m_Script: {fileID: 11500000, guid: '' @ guid_a @ '', type: 3}'')
   \<and> sublist guid_a (''m_Script: {fileID: 11500000, guid: '' @ guid_a @ '', type: 3}'')
   \<and> fst (replace_guids_in_file built_self [''proj'', ''Scene.unity''] scenario)
   \<and> read_text (snd (replace_guids_in_file built_self [''proj'', ''Scene.unity''] scenario))
        [''proj'', ''Scene.unity'']
       = Some (''m_Script: {fileID: 11500000, guid: '' @ guid_b @ '', type: 3}'')
   \<and> \<not> sublist guid_a (''m_Script: {fileID: 11500000, guid: '' @ guid_b @ '', type: 3}'')"
proof -
  let ?s = "''m_Script: {fileID: 11500000, guid: '' @ guid_a @ '', type: 3}''"
  let ?t = "''m_Script: {fileID: 11500000, guid: '' @ guid_b @ '', type: 3}''"
  have r: "read_text scenario [''proj'', ''Scene.unity''] = Some ?s" by code_simp
  have w: "writable (files scenario [''proj'', ''Scene.unity''])" by code_simp
  have m: "guid_mappings built_self = [(guid_a, guid_b)]" by code_simp
  have ga: "is_guid guid_a" by code_simp
  have gb: "is_guid guid_b" by code_simp
  have ne: "guid_a \<noteq> guid_b" by code_simp
  have d: "delimited ?s" by code_simp
  have o: "sublist guid_a ?s" by code_simp
  have a: "apply_mappings (guid_mappings built_self) ?s = ?t" by code_simp
  have n: "\<not> sublist guid_a ?t" by code_simp
  from m ga gb have g: "\<forall>(old, new) \<in> set (guid_mappings built_self). is_guid old \<and> is_guid new"
    by simp
  from m ne have x: "fst ` set (guid_mappings built_self) \<inter> snd ` set (guid_mappings built_self) = {}"
    by simp
  from m o have e: "\<exists>old \<in> fst ` set (guid_mappings built_self). sublist old ?s"
    by simp
  from every_occurrence_replaced [OF r w g x d e]
  have "fst (replace_guids_in_file built_self [''proj'', ''Scene.unity''] scenario)"
    and "read_text (snd (replace_guids_in_file built_self [''proj'', ''Scene.unity''] scenario))
           [''proj'', ''Scene.unity''] = Some ?t"
    unfolding a by blast+
  with r w m ga gb ne d o n show ?thesis by blast
qed

theorem second_run_changes_nothing_witness:
  "guid_mappings built_self = [(guid_a, guid_b)]
   \<and> is_guid guid_a \<and> is_guid guid_b \<and> guid_a \<noteq> guid_b
   \<and> read_text scenario [''proj'', ''Scene.unity.meta''] = Some (''guid: '' @ guid_c)
   \<and> delimited (''guid: '' @ guid_c)
   \<and> read_text scenario [''proj'', ''Scene.unity'']
       = Some (''m_Script: {fileID: 11500000, guid: '' @ guid_a @ '', type: 3}'')
   \<and> delimited (''m_Script: {fileID: 11500000, guid: '' @ guid_a @ '', type: 3}'')
   \<and> fst (snd (correct_loop built_self [[''proj'', ''Scene.unity.meta''], [''proj'', ''Scene.unity'']]
        (0, 0, scenario))) = 1
   \<and> fst (snd (correct_loop built_self [[''proj'', ''Scene.unity.meta''], [''proj'', ''Scene.unity'']]
        (0, 0, snd (snd (correct_loop built_self
           [[''proj'', ''Scene.unity.meta''], [''proj'', ''Scene.unity'']] (0, 0, scenario)))))) = 0
   \<and> files (snd (snd (correct_loop built_self [[''proj'', ''Scene.unity.meta''], [''proj'', ''Scene.unity'']]
        (0, 0, snd (snd (correct_loop built_self
           [[''proj'', ''Scene.unity.meta''], [''proj'', ''Scene.unity'']] (0, 0, scenario)))))))
       = files (snd (snd (correct_loop built_self
           [[''proj'', ''Scene.unity.meta''], [''proj'', ''Scene.unity'']] (0, 0, scenario))))"
proof -
  let ?ts = "[[''proj'', ''Scene.unity.meta''], [''proj'', ''Scene.unity'']]"
  let ?s = "''m_Script: {fileID: 11500000, guid: '' @ guid_a @ '', type: 3}''"
  let ?r1 = "correct_loop built_self ?ts (0, 0, scenario)"
  let ?r2 = "correct_loop built_self ?ts (0, 0, snd (snd ?r1))"
  have m: "guid_mappings built_self = [(guid_a, guid_b)]" by code_simp
  have ga: "is_guid guid_a" by code_simp
  have gb: "is_guid guid_b" by code_simp
  have ne: "guid_a \<noteq> guid_b" by code_simp
  have r1: "read_text scenario [''proj'', ''Scene.unity.meta''] = Some (''guid: '' @ guid_c)"
    by code_simp
  have d1: "delimited (''guid: '' @ guid_c)" by code_simp
  have r2: "read_text scenario [''proj'', ''Scene.unity''] = Some ?s" by code_simp
  have d2: "delimited ?s" by code_simp
  have f: "fst (snd ?r1) = 1" by code_simp
  from m ga gb have g: "\<forall>(old, new) \<in> set (guid_mappings built_self). is_guid old \<and> is_guid new"
    by simp
  from m ne have x: "\<forall>(old, new) \<in> set (guid_mappings built_self).
      \<forall>(old', new') \<in> set (guid_mappings built_self). old = new' \<longrightarrow> (old', new') = (old, new)"
    by simp
  from r1 d1 r2 d2 have d: "\<forall>p \<in> set ?ts. \<forall>s. read_text scenario p = Some s \<longrightarrow> delimited s"
    by simp
  have e1: "?r1 = (fst ?r1, fst (snd ?r1), snd (snd ?r1))" by simp
  have e2: "?r2 = (fst ?r2, fst (snd ?r2), snd (snd ?r2))" by simp
  from second_run_changes_nothing [OF g x d e1 e2] m ga gb ne r1 d1 r2 d2 f
  show ?thesis by blast
qed


section \<open>Spellings of an old identifier with a capital letter\<close>

lemma str_replace_map:
  "old \<noteq> [] \<Longrightarrow> map f new = map f old \<Longrightarrow> map f (str_replace s old new) = map f s"
proof (induction s old new rule: str_replace.induct)
  case (1 old new)
  then show ?case by simp
next
  case (2 c cs old new)
  show ?case
  proof (cases "prefix old (c # cs)")
    case True
    then obtain zs where z: "c # cs = old @ zs" by (auto simp: prefix_def)
    from "2.prems"(1) obtain n where "length old = Suc n" by (cases old) auto
    then have "drop (length old - 1) cs = drop (length old) (c # cs)" by simp
    with z have d: "drop (length old - 1) cs = zs" by simp
    have "map f (str_replace (c # cs) old new) = map f new @ map f (str_replace zs old new)"
      using True "2.prems"(1) d by simp
    also have "\<dots> = map f old @ map f zs"
      using "2.IH"(2) [OF "2.prems"(1) True "2.prems"] "2.prems"(2) d by simp
    also have "\<dots> = map f (c # cs)" unfolding z by simp
    finally show ?thesis .
  next
    case False
    then show ?thesis using "2.IH"(3) "2.prems" by simp
  qed
qed

lemma fixed_part_guid: "is_guid g \<Longrightarrow> fixed_part g = replicate 32 None"
proof -
  assume g: "is_guid g"
  then have "list_all is_lower_hex g" and l: "length g = 32" by (simp_all add: is_guid_def)
  then have "fixed_part g = map (\<lambda>c. None) g"
    unfolding fixed_part_def by (intro map_cong) (auto simp: list_all_iff)
  with l show ?thesis by (simp add: map_replicate_const)
qed

lemma apply_mappings_fixed_part:
  "\<forall>(old, new) \<in> set m. is_guid old \<and> is_guid new \<Longrightarrow>
   fixed_part (apply_mappings m s) = fixed_part s"
proof (induction m arbitrary: s)
  case Nil
  show ?case by (simp add: apply_mappings_def)
next
  case (Cons a m)
  obtain old new where a: "a = (old, new)" by (cases a)
  with Cons.prems have g: "is_guid old" "is_guid new" by simp_all
  have "fixed_part (str_replace s old new) = fixed_part s"
    unfolding fixed_part_def
    using g fixed_part_guid [of old] fixed_part_guid [of new]
    by (intro str_replace_map) (simp_all add: is_guid_nonempty fixed_part_def)
  with Cons a show ?case by (simp add: apply_mappings_Cons)
qed

lemma fixed_part_nth:
  assumes "fixed_part r = fixed_part s" and "i < length s" and "\<not> is_lower_hex (s ! i)"
  shows "r ! i = s ! i"
proof -
  from assms(1) have l: "length r = length s"
    unfolding fixed_part_def by (rule map_eq_imp_length_eq)
  from assms(1) have "fixed_part r ! i = fixed_part s ! i" by simp
  with assms(2,3) l show ?thesis
    by (simp add: fixed_part_def split: if_splits)
qed

lemma lower_hex_back: "is_lower_hex (lower_char c) \<Longrightarrow> is_hex c"
  by (auto simp: is_lower_hex_def is_hex_def lower_char_def Let_def split: if_splits)

lemma spelling_is_hex:
  assumes "is_guid (lower u)"
  shows "length u = 32" and "list_all is_hex u"
  using assms by (auto simp: is_guid_def lower_def list_all_iff dest: lower_hex_back)

lemma chain_other: "h \<notin> fst ` set m \<Longrightarrow> chain m h = h"
proof (induction m)
  case Nil
  show ?case by (simp add: chain_def)
next
  case (Cons a m)
  obtain old new where a: "a = (old, new)" by (cases a)
  with Cons show ?case by (simp add: chain_Cons)
qed

text \<open>
  Claim C9 as stated fails where an exact occurrence of the old identifier overlaps the
  spelling with a capital: the replacement of the exact occurrence takes the last 31
  characters of the spelling with it, and the spelling is in the file no more.
\<close>

theorem overlapped_spelling_is_lost:
  "guid_mappings (fst (build_guid_mappings scenario_self overlapped)) = [(guid_a, guid_b)]
   \<and> lower guid_Aa = guid_a
   \<and> guid_Aa \<noteq> lower guid_Aa
   \<and> read_text overlapped [''proj'', ''Notes.asset''] = Some (''x: '' @ guid_Aa @ ''a'')
   \<and> sublist guid_Aa (''x: '' @ guid_Aa @ ''a'')
   \<and> fst (replace_guids_in_file (fst (build_guid_mappings scenario_self overlapped))
            [''proj'', ''Notes.asset''] overlapped)
   \<and> read_text (snd (replace_guids_in_file (fst (build_guid_mappings scenario_self overlapped))
            [''proj'', ''Notes.asset''] overlapped)) [''proj'', ''Notes.asset'']
       = Some (''x: A'' @ guid_b)
   \<and> \<not> sublist guid_Aa (''x: A'' @ guid_b)"
  by code_simp

text \<open>
  Claim C9, amended. The keys of a table built by the build phase from the empty table are in
  lower case, so a spelling \<open>u\<close> of an old identifier with a capital letter in it is no key.
  Where \<open>u\<close> stands in a target, whatever else the target holds: the new content has the
  length of the old one; every character of \<open>u\<close> other than a digit or a letter a to f, its
  capitals among them, stands unchanged at its position; what stands in the place of \<open>u\<close>
  is no new identifier of the table; and when the content is delimited, \<open>u\<close> itself stands
  there unchanged. A target that holds no key of the table, only such spellings, is
  returned as unmodified, the world unchanged.
\<close>

theorem capitals_are_never_replaced:
  assumes "self = fst (build_guid_mappings (init dp ap pp) w0)"
    and "lower u \<in> fst ` set (guid_mappings self)"
    and "u \<noteq> lower u"
    and "read_text w f = Some (pre @ u @ post)"
  shows "(\<forall>k \<in> fst ` set (guid_mappings self). lower k = k)
       \<and> u \<notin> fst ` set (guid_mappings self)
       \<and> length (apply_mappings (guid_mappings self) (pre @ u @ post)) = length (pre @ u @ post)
       \<and> (\<forall>j < length u. \<not> is_lower_hex (u ! j) \<longrightarrow>
             apply_mappings (guid_mappings self) (pre @ u @ post) ! (length pre + j) = u ! j)
       \<and> take (length u) (drop (length pre) (apply_mappings (guid_mappings self) (pre @ u @ post)))
            \<notin> snd ` set (guid_mappings self)
       \<and> (delimited (pre @ u @ post) \<longrightarrow>
             take (length u) (drop (length pre) (apply_mappings (guid_mappings self) (pre @ u @ post)))
               = u)
       \<and> ((\<forall>k \<in> fst ` set (guid_mappings self). \<not> sublist k (pre @ u @ post)) \<longrightarrow>
             replace_guids_in_file self f w = (False, w))"
proof -
  let ?m = "guid_mappings self"
  let ?s = "pre @ u @ post"
  let ?r = "apply_mappings ?m ?s"
  have "\<forall>(k, v) \<in> set (guid_mappings (init dp ap pp)). is_guid k \<and> is_guid v"
    by (simp add: init_def)
  then have g: "\<forall>(k, v) \<in> set ?m. is_guid k \<and> is_guid v"
    unfolding assms(1) by (rule built_table_guids)
  then have low: "\<forall>k \<in> fst ` set ?m. lower k = k"
    by (auto simp: is_guid_def lower_fixed)
  with assms(3) have nk: "u \<notin> fst ` set ?m" by metis
  from g assms(2) have gl: "is_guid (lower u)" by auto
  note uh = spelling_is_hex [OF gl]
  have len: "length ?r = length ?s" using g by (rule apply_mappings_length)
  have fp: "fixed_part ?r = fixed_part ?s" using g by (rule apply_mappings_fixed_part)
  have keep: "?r ! (length pre + j) = u ! j" if "j < length u" "\<not> is_lower_hex (u ! j)" for j
  proof -
    from that(1) have i: "length pre + j < length ?s" by simp
    from that(1) have e: "?s ! (length pre + j) = u ! j" by (simp add: nth_append)
    from fixed_part_nth [OF fp i] that(2) e show ?thesis by simp
  qed
  from assms(3) have "\<not> list_all is_lower_hex u" using lower_fixed [of u] by auto
  then obtain j where j: "j < length u" "\<not> is_lower_hex (u ! j)"
    by (auto simp: list_all_length)
  let ?u = "take (length u) (drop (length pre) ?r)"
  have uj: "?u ! j = u ! j"
    using j(1) keep [OF j] len by simp
  have nv: "?u \<notin> snd ` set ?m"
  proof
    assume "?u \<in> snd ` set ?m"
    with g have "is_guid ?u" by auto
    then have "list_all is_lower_hex ?u" and "length ?u = 32" by (simp_all add: is_guid_def)
    with j(1) uh(1) have "is_lower_hex (?u ! j)" by (simp add: list_all_length)
    with uj j(2) show False by simp
  qed
  have del: "?u = u" if d: "delimited ?s"
  proof -
    from apply_mappings_around [OF g uh d]
    obtain pre' post' where "?r = pre' @ chain ?m u @ post'" "length pre' = length pre" by blast
    with chain_other [OF nk] show ?thesis by simp
  qed
  have un: "replace_guids_in_file self f w = (False, w)"
    if "\<forall>k \<in> fst ` set ?m. \<not> sublist k ?s"
    using assms(4) that by (rule replace_guids_absent)
  from low nk len keep nv del un show ?thesis by blast
qed

theorem capitals_are_never_replaced_witness:
  "lower guid_A \<in> fst ` set (guid_mappings (fst (build_guid_mappings (init [''dec''] [''act''] [''proj'']) overlapped)))
   \<and> guid_A \<noteq> lower guid_A
   \<and> read_text overlapped [''proj'', ''List.asset''] = Some (''old: '' @ guid_A @ '' new: '' @ guid_a)
   \<and> sublist guid_a (''old: '' @ guid_A @ '' new: '' @ guid_a)
   \<and> delimited (''old: '' @ guid_A @ '' new: '' @ guid_a)
   \<and> apply_mappings (guid_mappings (fst (build_guid_mappings (init [''dec''] [''act''] [''proj'']) overlapped)))
        (''old: '' @ guid_A @ '' new: '' @ guid_a) ! (length ''old: '' + 0) = CHR ''A''
   \<and> take (length guid_A) (drop (length ''old: '')
        (apply_mappings (guid_mappings (fst (build_guid_mappings (init [''dec''] [''act''] [''proj'']) overlapped)))
           (''old: '' @ guid_A @ '' new: '' @ guid_a))) = guid_A
   \<and> apply_mappings (guid_mappings (fst (build_guid_mappings (init [''dec''] [''act''] [''proj'']) overlapped)))
        (''old: '' @ guid_A @ '' new: '' @ guid_a) = ''old: '' @ guid_A @ '' new: '' @ guid_b
   \<and> lower guid_A \<in> fst ` set (guid_mappings (fst (build_guid_mappings (init [''dec''] [''act''] [''proj'']) scenario)))
   \<and> read_text scenario [''dec'', ''Foo.meta'']
       = Some (''fileFormatVersion: 2\<newline>guid: '' @ guid_A @ ''\<newline>'')
   \<and> fst ` set (guid_mappings (fst (build_guid_mappings (init [''dec''] [''act''] [''proj'']) scenario))) = {guid_a}
   \<and> \<not> sublist guid_a (''fileFormatVersion: 2\<newline>guid: '' @ guid_A @ ''\<newline>'')
   \<and> replace_guids_in_file (fst (build_guid_mappings (init [''dec''] [''act''] [''proj'']) scenario))
        [''dec'', ''Foo.meta''] scenario = (False, scenario)"
proof -
  let ?self = "fst (build_guid_mappings (init [''dec''] [''act''] [''proj'']) overlapped)"
  let ?s = "''old: '' @ guid_A @ '' new: '' @ guid_a"
  let ?self2 = "fst (build_guid_mappings (init [''dec''] [''act''] [''proj'']) scenario)"
  let ?s2 = "''fileFormatVersion: 2\<newline>guid: '' @ guid_A @ ''\<newline>''"
  have t: "guid_mappings ?self = [(guid_a, guid_b)]" by code_simp
  have l: "lower guid_A = guid_a" by code_simp
  from t l have m: "lower guid_A \<in> fst ` set (guid_mappings ?self)" by simp
  have d: "guid_A \<noteq> lower guid_A" by code_simp
  have r: "read_text overlapped [''proj'', ''List.asset''] = Some ?s" by code_simp
  have o: "sublist guid_a ?s" by code_simp
  have dl: "delimited ?s" by code_simp
  have c0: "\<not> is_lower_hex (guid_A ! 0)" by code_simp
  have c1: "guid_A ! 0 = CHR ''A''" by code_simp
  have c2: "0 < length guid_A" by code_simp
  have a: "apply_mappings (guid_mappings ?self) ?s = ''old: '' @ guid_A @ '' new: '' @ guid_b"
    by code_simp
  note th = capitals_are_never_replaced [OF refl m d r]
  from th c2 c0 have "apply_mappings (guid_mappings ?self) ?s ! (length ''old: '' + 0) = guid_A ! 0"
    by blast
  then have 1: "apply_mappings (guid_mappings ?self) ?s ! (length ''old: '' + 0) = CHR ''A''"
    unfolding c1 .
  from th dl have 2: "take (length guid_A) (drop (length ''old: '')
      (apply_mappings (guid_mappings ?self) ?s)) = guid_A" by blast
  have t2: "guid_mappings ?self2 = [(guid_a, guid_b)]" by code_simp
  then have k2: "fst ` set (guid_mappings ?self2) = {guid_a}" by simp
  from k2 l have m2: "lower guid_A \<in> fst ` set (guid_mappings ?self2)" by simp
  have r2: "read_text scenario [''dec'', ''Foo.meta''] = Some ?s2" by code_simp
  have n2: "\<not> sublist guid_a ?s2" by code_simp
  from k2 n2 have a2: "\<forall>k \<in> fst ` set (guid_mappings ?self2). \<not> sublist k ?s2" by simp
  from capitals_are_never_replaced [OF refl m2 d r2] a2
  have 3: "replace_guids_in_file ?self2 [''dec'', ''Foo.meta''] scenario = (False, scenario)"
    by blast
  from m d r o dl 1 2 a m2 r2 k2 n2 3 show ?thesis by blast
qed

end
